theory Spec2Isabelle
  imports Main
begin

section \<open>Data model of the CPU profile (src/cpu/model.ts)\<close>

text \<open>
  JavaScript numbers are modelled as mathematical integers (\<open>int\<close>): identifiers, line
  numbers, tick counts, time stamps and time deltas of a profile are integers, on which
  IEEE doubles compute exactly below \<open>2^53\<close>. A property that may be \<open>undefined\<close> is an
  \<open>option\<close>; every exception of the source is a value \<open>Inl e\<close>.
\<close>

datatype error =
    TypeError    \<comment> \<open>property access on \<open>undefined\<close>, or property write on a number\<close>
  | RangeError   \<comment> \<open>maximum call stack size exceeded\<close>
  | MergedLocationError  \<comment> \<open>\<open>Error('Cannot create an accessor in a merged location')\<close>\<close>

datatype Category = System | User | Module

record CallFrame =
  functionName :: string
  scriptId :: string
  url :: string
  lineNumber :: int
  columnNumber :: int

text \<open>
  Modelled from the spec: the type declarations of \<open>./types\<close> and of the debug protocol
  (\<open>ISourceLocation\<close>, \<open>IAnnotationLocation\<close>, \<open>ICpuProfileRaw\<close> and its nodes) are not
  among the sources; the records below have the fields that \<open>model.ts\<close> reads and writes.
\<close>

record Source =
  src_name :: "string option"
  src_path :: "string option"
  sourceReference :: "int option"

record ISourceLocation =
  sl_lineNumber :: int
  sl_columnNumber :: int
  source :: Source

text \<open>\<open>ILocation.src\<close> is an \<open>ISourceLocation\<close> with an optional \<open>relativePath\<close>.\<close>

record ILocationSrc = ISourceLocation +
  relativePath :: "string option"

record IAnnotationLocation =
  al_callFrame :: CallFrame
  al_locations :: "ISourceLocation list"

record PositionTick =
  line :: int
  pt_ticks :: int
  startLocationId :: "int option"
  endLocationId :: "int option"

record IProfileNode =
  pn_id :: int
  pn_callFrame :: CallFrame
  pn_children :: "int list option"
  pn_locationId :: "int option"
  positionTicks :: "PositionTick list option"

record VsCodeAnnotation =
  vs_rootPath :: "string option"
  vs_locations :: "IAnnotationLocation list"

record ICpuProfileRaw =
  p_nodes :: "IProfileNode list"
  startTime :: int
  endTime :: int
  p_samples :: "int list option"
  p_timeDeltas :: "int list option"
  vscode :: "VsCodeAnnotation option"

record IComputedNode =
  cn_id :: int
  cn_selfTime :: int
  cn_aggregateTime :: int
  cn_children :: "int list"
  cn_parent :: "int option"
  cn_locationId :: "int option"

record ILocation =
  loc_id :: int
  loc_selfTime :: int
  loc_aggregateTime :: int
  loc_ticks :: int
  category :: Category
  callFrame :: CallFrame
  src :: "ILocationSrc option"

text \<open>
  The array \<open>nodes\<close> of \<open>buildModel\<close> is created with \<open>new Array(n)\<close> and filled by
  \<open>nodes[node.id - 1] = ...\<close>: it can have holes, it grows when an index is beyond its
  length, and an assignment at a negative index sets a plain property that \<open>nodes[-1]\<close>
  reads back. A JavaScript array is therefore its \<open>length\<close> and a map from keys to values.
\<close>

record 'a JsArray =
  len :: nat
  elems :: "int \<rightharpoonup> 'a"

definition newArray :: "nat \<Rightarrow> 'a JsArray" where
  "newArray n = \<lparr> len = n, elems = Map.empty \<rparr>"

definition setAt :: "int \<Rightarrow> 'a \<Rightarrow> 'a JsArray \<Rightarrow> 'a JsArray" where
  \<comment> \<open>\<open>arr[k] = v\<close>; array indices are the integers from 0 to \<open>2^32 - 2\<close>\<close>
  "setAt k v arr =
     \<lparr> len = (if 0 \<le> k \<and> k < 4294967295 then max (len arr) (nat k + 1) else len arr),
       elems = (elems arr)(k \<mapsto> v) \<rparr>"

definition modifyAt :: "int \<Rightarrow> ('a \<Rightarrow> 'a) \<Rightarrow> 'a JsArray \<Rightarrow> 'a JsArray" where
  \<comment> \<open>a field update of the object stored at key \<open>k\<close>\<close>
  "modifyAt k f arr =
     (case elems arr k of None \<Rightarrow> arr | Some v \<Rightarrow> arr\<lparr> elems := (elems arr)(k \<mapsto> f v) \<rparr>)"

definition at :: "'a list \<Rightarrow> int \<Rightarrow> 'a option" where
  \<comment> \<open>\<open>xs[i]\<close> on a dense array: \<open>undefined\<close> out of range\<close>
  "at xs i = (if 0 \<le> i \<and> i < int (length xs) then Some (xs ! nat i) else None)"

definition atOpt :: "'a list \<Rightarrow> int option \<Rightarrow> 'a option" where
  \<comment> \<open>\<open>xs[i]\<close> where the index itself may be \<open>undefined\<close>\<close>
  "atOpt xs i = (case i of None \<Rightarrow> None | Some k \<Rightarrow> at xs k)"

record IProfileModel =
  m_nodes :: "IComputedNode JsArray"
  m_locations :: "ILocation list"
  m_samples :: "int list"
  m_timeDeltas :: "int list"
  m_rootPath :: "string option"
  duration :: int

text \<open>
  Modelled from the spec: \<open>properRelative\<close> and \<open>maybeFileUrlToPath\<close> of
  \<open>../common/pathUtils\<close> are not among the sources; they are pure string functions and are
  taken as parameters.
\<close>

record PathUtils =
  properRelative :: "string \<Rightarrow> string \<Rightarrow> string"
  maybeFileUrlToPath :: "string \<Rightarrow> string"

section \<open>computeAggregateTime\<close>

text \<open>
  \<open>computeAggregateTime\<close> calls itself for every child. The first argument is the number
  of nested calls the stack still admits: a call with none left is the \<open>RangeError\<close> of
  JavaScript. \<open>sumChildren\<close> is the \<open>for\<close> loop over \<open>row.children\<close>. A cached
  \<open>aggregateTime\<close> is used when it is truthy, that is, not zero.
\<close>

fun computeAggregateTime ::
    "nat \<Rightarrow> int \<Rightarrow> IComputedNode JsArray \<Rightarrow> error + (int \<times> IComputedNode JsArray)"
  and sumChildren ::
    "nat \<Rightarrow> int list \<Rightarrow> int \<Rightarrow> IComputedNode JsArray \<Rightarrow> error + (int \<times> IComputedNode JsArray)"
where
  "computeAggregateTime 0 index nodes = Inl RangeError"
| "computeAggregateTime (Suc depth) index nodes =
     (case elems nodes index of
        None \<Rightarrow> Inl TypeError
      | Some row \<Rightarrow>
          if cn_aggregateTime row \<noteq> 0 then Inr (cn_aggregateTime row, nodes)
          else (case sumChildren depth (cn_children row) (cn_selfTime row) nodes of
                  Inl e \<Rightarrow> Inl e
                | Inr (tot, nodes') \<Rightarrow>
                    Inr (tot, modifyAt index (\<lambda>r. r\<lparr> cn_aggregateTime := tot \<rparr>) nodes')))"
| "sumChildren depth [] tot nodes = Inr (tot, nodes)"
| "sumChildren depth (child # rest) tot nodes =
     (case computeAggregateTime depth child nodes of
        Inl e \<Rightarrow> Inl e
      | Inr (v, nodes') \<Rightarrow> sumChildren depth rest (tot + v) nodes')"

section \<open>getBestLocation and categorize\<close>

definition truthyStr :: "string option \<Rightarrow> bool" where
  "truthyStr s = (case s of None \<Rightarrow> False | Some t \<Rightarrow> t \<noteq> [])"

definition rootPathOf :: "ICpuProfileRaw \<Rightarrow> string option" where
  \<comment> \<open>\<open>profile.$vscode?.rootPath\<close>\<close>
  "rootPathOf profile = (case vscode profile of None \<Rightarrow> None | Some v \<Rightarrow> vs_rootPath v)"

definition withRelativePath :: "ISourceLocation \<Rightarrow> string option \<Rightarrow> ILocationSrc" where
  "withRelativePath c rel =
     \<lparr> sl_lineNumber = sl_lineNumber c, sl_columnNumber = sl_columnNumber c,
       source = source c, relativePath = rel \<rparr>"

definition getBestLocation ::
    "PathUtils \<Rightarrow> ICpuProfileRaw \<Rightarrow> ISourceLocation list \<Rightarrow> ILocationSrc option" where
  "getBestLocation utils profile candidates =
     (case find (\<lambda>c. truthyStr (src_path (source c)) \<and> sourceReference (source c) = Some 0)
             candidates of
        None \<Rightarrow> (case candidates of [] \<Rightarrow> None | c # _ \<Rightarrow> Some (withRelativePath c None))
      | Some onDisk \<Rightarrow>
          Some (withRelativePath onDisk
            (if truthyStr (rootPathOf profile)
             then Some (properRelative utils (the (rootPathOf profile))
                          (the (src_path (source onDisk))))
             else None)))"

fun str_includes :: "string \<Rightarrow> string \<Rightarrow> bool" where
  \<comment> \<open>\<open>s.includes(t)\<close>: \<open>t\<close> occurs in \<open>s\<close> as a substring\<close>
  "str_includes [] t = (t = [])"
| "str_includes (c # s) t = (take (length t) (c # s) = t \<or> str_includes s t)"

definition categorize :: "CallFrame \<Rightarrow> ILocationSrc option \<Rightarrow> Category \<times> CallFrame" where
  \<comment> \<open>returns the category and the call frame as the function leaves it\<close>
  "categorize cf src' =
     (let cf' = cf\<lparr> functionName := (if functionName cf = [] then ''(anonymous)''
                                      else functionName cf) \<rparr>
      in (if lineNumber cf' < 0 then System
          else if str_includes (url cf') ''node_modules'' \<or> src' = None then Module
          else User,
          cf'))"

section \<open>ensureSourceLocations\<close>

text \<open>
  The call-frame objects of a raw profile are mutable and are shared by reference: a
  location of the model holds the very object of the profile node (or of the annotation) it
  was made from, and \<open>categorize\<close> writes to it. The raw profile is a tree of values, as
  parsed from a file, so a call-frame object is named by the place it has in that tree; an
  object made by a spread \<open>{...node.callFrame, ...}\<close> belongs to no place of the profile.
\<close>

datatype FrameRef =
    NodeFrame nat          \<comment> \<open>\<open>profile.nodes[i].callFrame\<close>\<close>
  | AnnotationFrame nat    \<comment> \<open>\<open>profile.$vscode.locations[j].callFrame\<close>\<close>
  | FreshFrame CallFrame   \<comment> \<open>an object created by a spread, with its content\<close>

definition frameAt :: "ICpuProfileRaw \<Rightarrow> FrameRef \<Rightarrow> CallFrame option" where
  "frameAt profile r =
     (case r of
        NodeFrame i \<Rightarrow> map_option pn_callFrame (at (p_nodes profile) (int i))
      | AnnotationFrame j \<Rightarrow>
          (case vscode profile of
             None \<Rightarrow> None
           | Some v \<Rightarrow> map_option al_callFrame (at (vs_locations v) (int j)))
      | FreshFrame cf \<Rightarrow> Some cf)"

definition setFrame :: "ICpuProfileRaw \<Rightarrow> FrameRef \<Rightarrow> CallFrame \<Rightarrow> ICpuProfileRaw" where
  "setFrame profile r cf =
     (case r of
        NodeFrame i \<Rightarrow>
          profile\<lparr> p_nodes := (p_nodes profile)[i := (p_nodes profile ! i)\<lparr> pn_callFrame := cf \<rparr>] \<rparr>
      | AnnotationFrame j \<Rightarrow>
          (case vscode profile of
             None \<Rightarrow> profile
           | Some v \<Rightarrow>
               profile\<lparr> vscode := Some (v\<lparr> vs_locations :=
                 (vs_locations v)[j := (vs_locations v ! j)\<lparr> al_callFrame := cf \<rparr>] \<rparr>) \<rparr>)
      | FreshFrame _ \<Rightarrow> profile)"

definition digitChar :: "nat \<Rightarrow> char" where
  "digitChar d = ''0123456789'' ! (d mod 10)"

function showNat :: "nat \<Rightarrow> string" where
  "showNat n = (if n < 10 then [digitChar n] else showNat (n div 10) @ [digitChar (n mod 10)])"
  by pat_completeness auto
termination
  by (relation "measure id") auto

declare showNat.simps [simp del]

definition showInt :: "int \<Rightarrow> string" where
  \<comment> \<open>the decimal string that \<open>join\<close> makes of an integer\<close>
  "showInt i = (if i < 0 then CHR ''-'' # showNat (nat (- i)) else showNat (nat i))"

definition refKey :: "CallFrame \<Rightarrow> string" where
  "refKey cf =
     functionName cf @ '':'' @ url cf @ '':'' @ scriptId cf @ '':'' @
     showInt (lineNumber cf) @ '':'' @ showInt (columnNumber cf)"

record LocationEntry =
  le_key :: string
  le_id :: nat
  le_callFrame :: FrameRef
  le_location :: ISourceLocation

text \<open>
  \<open>locationsByRef\<close> is a \<open>Map\<close> from the key string to an entry; the list keeps the entries
  in insertion order, one per key.
\<close>

record LocationTable =
  locationIdCounter :: nat
  locationsByRef :: "LocationEntry list"

definition getLocationIdFor ::
    "PathUtils \<Rightarrow> FrameRef \<Rightarrow> CallFrame \<Rightarrow> LocationTable \<Rightarrow> nat \<times> LocationTable" where
  "getLocationIdFor utils r cf tbl =
     (case find (\<lambda>e. le_key e = refKey cf) (locationsByRef tbl) of
        Some existing \<Rightarrow> (le_id existing, tbl)
      | None \<Rightarrow>
          (locationIdCounter tbl,
           \<lparr> locationIdCounter = Suc (locationIdCounter tbl),
             locationsByRef = locationsByRef tbl @
               [\<lparr> le_key = refKey cf, le_id = locationIdCounter tbl, le_callFrame = r,
                  le_location =
                    \<lparr> sl_lineNumber = lineNumber cf, sl_columnNumber = columnNumber cf,
                      source = \<lparr> src_name = Some (maybeFileUrlToPath utils (url cf)),
                                 src_path = Some (maybeFileUrlToPath utils (url cf)),
                                 sourceReference = Some 0 \<rparr> \<rparr> \<rparr>] \<rparr>))"

fun markTicks ::
    "PathUtils \<Rightarrow> CallFrame \<Rightarrow> PositionTick list \<Rightarrow> LocationTable
      \<Rightarrow> PositionTick list \<times> LocationTable" where
  "markTicks utils cf [] tbl = ([], tbl)"
| "markTicks utils cf (tick # rest) tbl =
     (let startFrame = cf\<lparr> lineNumber := line tick - 1, columnNumber := 0 \<rparr>;
          (startId, tbl1) = getLocationIdFor utils (FreshFrame startFrame) startFrame tbl;
          endFrame = cf\<lparr> lineNumber := line tick, columnNumber := 0 \<rparr>;
          (endId, tbl2) = getLocationIdFor utils (FreshFrame endFrame) endFrame tbl1;
          (rest', tbl3) = markTicks utils cf rest tbl2
      in (tick\<lparr> startLocationId := Some (int startId), endLocationId := Some (int endId) \<rparr>
            # rest', tbl3))"

fun ensureNodes ::
    "PathUtils \<Rightarrow> nat \<Rightarrow> IProfileNode list \<Rightarrow> LocationTable
      \<Rightarrow> IProfileNode list \<times> LocationTable" where
  "ensureNodes utils i [] tbl = ([], tbl)"
| "ensureNodes utils i (node # rest) tbl =
     (let (locId, tbl1) = getLocationIdFor utils (NodeFrame i) (pn_callFrame node) tbl;
          (ticks', tbl2) =
             (case positionTicks node of
                None \<Rightarrow> (None, tbl1)
              | Some ts \<Rightarrow>
                  (let (ts', t) = markTicks utils (pn_callFrame node) ts tbl1 in (Some ts', t)));
          (rest', tbl3) = ensureNodes utils (Suc i) rest tbl2
      in (node\<lparr> pn_locationId := Some (int locId), positionTicks := ticks' \<rparr> # rest', tbl3))"

record SourceLocationsEntry =
  sle_callFrame :: FrameRef
  sle_locations :: "ISourceLocation list"

definition ensureSourceLocations ::
    "PathUtils \<Rightarrow> ICpuProfileRaw \<Rightarrow> SourceLocationsEntry list \<times> ICpuProfileRaw" where
  \<comment> \<open>returns the annotation list and the profile as the function leaves it\<close>
  "ensureSourceLocations utils profile =
     (case vscode profile of
        Some v \<Rightarrow>
          (map (\<lambda>j. \<lparr> sle_callFrame = AnnotationFrame j,
                      sle_locations = al_locations (vs_locations v ! j) \<rparr>)
             [0..<length (vs_locations v)],
           profile)
      | None \<Rightarrow>
          (let (nodes', tbl) =
                 ensureNodes utils 0 (p_nodes profile)
                   \<lparr> locationIdCounter = 0, locationsByRef = [] \<rparr>
           in (map (\<lambda>l. \<lparr> sle_callFrame = le_callFrame l, sle_locations = [le_location l] \<rparr>)
                 (sort_key le_id (locationsByRef tbl)),
               profile\<lparr> p_nodes := nodes' \<rparr>)))"

section \<open>buildModel\<close>

fun buildLocations ::
    "PathUtils \<Rightarrow> nat \<Rightarrow> SourceLocationsEntry list \<Rightarrow> ICpuProfileRaw
      \<Rightarrow> (error + ILocation list) \<times> ICpuProfileRaw" where
  \<comment> \<open>\<open>sourceLocations.map((l, id) => ...)\<close>; \<open>categorize\<close> writes to the call frame of \<open>l\<close>\<close>
  "buildLocations utils i [] profile = (Inr [], profile)"
| "buildLocations utils i (l # rest) profile =
     (let src' = getBestLocation utils profile (sle_locations l)
      in case frameAt profile (sle_callFrame l) of
           None \<Rightarrow> (Inl TypeError, profile)
         | Some cf \<Rightarrow>
             (let (cat, cf') = categorize cf src';
                  profile1 = setFrame profile (sle_callFrame l) cf'
              in case buildLocations utils (Suc i) rest profile1 of
                   (Inl e, profile2) \<Rightarrow> (Inl e, profile2)
                 | (Inr locs, profile2) \<Rightarrow>
                     (Inr (\<lparr> loc_id = int i, loc_selfTime = 0, loc_aggregateTime = 0,
                              loc_ticks = 0, category = cat, callFrame = cf', src = src' \<rparr>
                           # locs),
                      profile2)))"

fun addTicks :: "PositionTick list \<Rightarrow> ILocation list \<Rightarrow> error + ILocation list" where
  \<comment> \<open>\<open>for (const child of node.positionTicks || [])\<close>\<close>
  "addTicks [] locations = Inr locations"
| "addTicks (child # rest) locations =
     (case startLocationId child of
        None \<Rightarrow> addTicks rest locations
      | Some k \<Rightarrow>
          if k = 0 then addTicks rest locations
          else (case at locations k of
                  None \<Rightarrow> Inl TypeError
                | Some l \<Rightarrow>
                    addTicks rest
                      (locations[nat k := l\<lparr> loc_ticks := loc_ticks l + pt_ticks child \<rparr>])))"

fun fillNodes ::
    "IProfileNode list \<Rightarrow> IComputedNode JsArray \<Rightarrow> ILocation list
      \<Rightarrow> error + (IComputedNode JsArray \<times> ILocation list)" where
  \<comment> \<open>step 1: \<open>for (let i = 0; i < profile.nodes.length; i++)\<close>\<close>
  "fillNodes [] nodes locations = Inr (nodes, locations)"
| "fillNodes (node # rest) nodes locations =
     (let nodes' =
            setAt (pn_id node - 1)
              \<lparr> cn_id = pn_id node - 1, cn_selfTime = 0, cn_aggregateTime = 0,
                cn_children = (case pn_children node of
                                 None \<Rightarrow> []
                               | Some cs \<Rightarrow> map (\<lambda>n. n - 1) cs),
                cn_parent = None, cn_locationId = pn_locationId node \<rparr>
              nodes
      in case addTicks (case positionTicks node of None \<Rightarrow> [] | Some ts \<Rightarrow> ts) locations of
           Inl e \<Rightarrow> Inl e
         | Inr locations' \<Rightarrow> fillNodes rest nodes' locations')"

fun setParents :: "int list \<Rightarrow> int \<Rightarrow> IComputedNode JsArray \<Rightarrow> error + IComputedNode JsArray" where
  \<comment> \<open>\<open>for (const child of node.children) nodes[child].parent = node.id\<close>\<close>
  "setParents [] pid nodes = Inr nodes"
| "setParents (child # rest) pid nodes =
     (case elems nodes child of
        None \<Rightarrow> Inl TypeError
      | Some _ \<Rightarrow> setParents rest pid (modifyAt child (\<lambda>r. r\<lparr> cn_parent := Some pid \<rparr>) nodes))"

lemma len_modifyAt [simp]: "len (modifyAt k f arr) = len arr"
  by (simp add: modifyAt_def split: option.splits)

lemma len_setParents: "setParents cs pid nodes = Inr nodes' \<Longrightarrow> len nodes' = len nodes"
  by (induction cs arbitrary: nodes) (auto split: option.splits)

function linkParents :: "nat \<Rightarrow> IComputedNode JsArray \<Rightarrow> error + IComputedNode JsArray" where
  \<comment> \<open>\<open>for (const node of nodes)\<close>: the array iterator runs over the indices below \<open>length\<close>\<close>
  "linkParents i nodes =
     (if i < len nodes then
        (case elems nodes (int i) of
           None \<Rightarrow> Inl TypeError
         | Some node \<Rightarrow>
             (case setParents (cn_children node) (cn_id node) nodes of
                Inl e \<Rightarrow> Inl e
              | Inr nodes' \<Rightarrow> linkParents (Suc i) nodes'))
      else Inr nodes)"
  by pat_completeness auto
termination
  by (relation "measure (\<lambda>(i, nodes). len nodes - i)") (auto dest: len_setParents)

declare linkParents.simps [simp del]

function addSelfTimes ::
    "nat \<Rightarrow> int list \<Rightarrow> int list \<Rightarrow> IComputedNode JsArray \<Rightarrow> error + IComputedNode JsArray" where
  \<comment> \<open>step 2: \<open>for (let i = 1; i < profile.timeDeltas.length; i++)\<close>, entered with \<open>i = 1\<close>\<close>
  "addSelfTimes i samples timeDeltas nodes =
     (if i < length timeDeltas then
        (case at samples (int i) of
           None \<Rightarrow> Inl TypeError
         | Some s \<Rightarrow>
             (case elems nodes (s - 1) of
                None \<Rightarrow> Inl TypeError
              | Some _ \<Rightarrow>
                  addSelfTimes (Suc i) samples timeDeltas
                    (modifyAt (s - 1)
                       (\<lambda>r. r\<lparr> cn_selfTime := cn_selfTime r + timeDeltas ! (i - 1) \<rparr>) nodes)))
      else Inr nodes)"
  by pat_completeness auto
termination
  by (relation "measure (\<lambda>(i, samples, timeDeltas, nodes). length timeDeltas - i)") auto

declare addSelfTimes.simps [simp del]

lemma len_computeAggregateTime:
  "computeAggregateTime depth index nodes = Inr (v, nodes') \<Longrightarrow> len nodes' = len nodes"
  "sumChildren depth cs tot nodes = Inr (v, nodes') \<Longrightarrow> len nodes' = len nodes"
proof (induction depth index nodes and depth cs tot nodes
        arbitrary: v nodes' and v nodes' rule: computeAggregateTime_sumChildren.induct)
  case (1 index nodes)
  then show ?case by simp
next
  case (2 depth index nodes)
  from "2.prems" obtain row where row: "elems nodes index = Some row"
    by (cases "elems nodes index") auto
  show ?case
  proof (cases "cn_aggregateTime row \<noteq> 0")
    case True
    with "2.prems" row show ?thesis by simp
  next
    case False
    with "2.prems" row obtain n1 where
      s: "sumChildren depth (cn_children row) (cn_selfTime row) nodes = Inr (v, n1)"
      and n: "nodes' = modifyAt index (\<lambda>r. r\<lparr> cn_aggregateTime := v \<rparr>) n1"
      by (cases "sumChildren depth (cn_children row) (cn_selfTime row) nodes") auto
    from "2.IH"[OF row False s] n show ?thesis by simp
  qed
next
  case (3 depth tot nodes)
  then show ?case by simp
next
  case (4 depth child rest tot nodes)
  from "4.prems" obtain w n1 where
    c: "computeAggregateTime depth child nodes = Inr (w, n1)"
    and s: "sumChildren depth rest (tot + w) n1 = Inr (v, nodes')"
    by (cases "computeAggregateTime depth child nodes") auto
  from "4.IH"(1)[OF c] "4.IH"(2)[OF c refl s] show ?case by simp
qed

definition currentAt :: "'a JsArray \<Rightarrow> int \<Rightarrow> 'a \<Rightarrow> 'a" where
  \<comment> \<open>the object a reference taken at key \<open>k\<close> denotes now; nothing is ever removed\<close>
  "currentAt arr k old = (case elems arr k of None \<Rightarrow> old | Some v \<Rightarrow> v)"

function aggregateAll ::
    "nat \<Rightarrow> nat \<Rightarrow> IComputedNode JsArray \<Rightarrow> ILocation list
      \<Rightarrow> error + (IComputedNode JsArray \<times> ILocation list)" where
  \<comment> \<open>step 3: \<open>for (let i = 0; i < nodes.length; i++)\<close>\<close>
  "aggregateAll stack i nodes locations =
     (if i < len nodes then
        (case elems nodes (int i) of
           None \<Rightarrow> Inl TypeError
         | Some node \<Rightarrow>
             (case atOpt locations (cn_locationId node) of
                None \<Rightarrow> Inl TypeError
              | Some _ \<Rightarrow>
                  (case computeAggregateTime stack (int i) nodes of
                     Inl e \<Rightarrow> Inl e
                   | Inr (v, nodes') \<Rightarrow>
                       aggregateAll stack (Suc i) nodes'
                         (locations[nat (the (cn_locationId node)) :=
                            (locations ! nat (the (cn_locationId node)))
                              \<lparr> loc_aggregateTime :=
                                  loc_aggregateTime (locations ! nat (the (cn_locationId node))) + v,
                                loc_selfTime :=
                                  loc_selfTime (locations ! nat (the (cn_locationId node)))
                                  + cn_selfTime (currentAt nodes' (int i) node) \<rparr>]))))
      else Inr (nodes, locations))"
  by pat_completeness auto
termination
  by (relation "measure (\<lambda>(stack, i, nodes, locations). len nodes - i)")
     (auto dest: len_computeAggregateTime(1))

declare aggregateAll.simps [simp del]

definition buildNodes ::
    "nat \<Rightarrow> ICpuProfileRaw \<Rightarrow> int list \<Rightarrow> int list \<Rightarrow> ILocation list \<Rightarrow> error + IProfileModel" where
  \<comment> \<open>steps 1 to 3 and the returned record; these read the profile and do not write to it\<close>
  "buildNodes stack profile samples timeDeltas locations0 =
     (case fillNodes (p_nodes profile) (newArray (length (p_nodes profile))) locations0 of
        Inl e \<Rightarrow> Inl e
      | Inr (nodes1, locations1) \<Rightarrow>
          (case linkParents 0 nodes1 of
             Inl e \<Rightarrow> Inl e
           | Inr nodes2 \<Rightarrow>
               (case addSelfTimes 1 samples timeDeltas nodes2 of
                  Inl e \<Rightarrow> Inl e
                | Inr nodes3 \<Rightarrow>
                    (case aggregateAll stack 0 nodes3 locations1 of
                       Inl e \<Rightarrow> Inl e
                     | Inr (nodes, locations) \<Rightarrow>
                         Inr \<lparr> m_nodes = nodes, m_locations = locations,
                               m_samples = map (\<lambda>id. id - 1) samples,
                               m_timeDeltas = timeDeltas,
                               m_rootPath = rootPathOf profile,
                               duration = endTime profile - startTime profile \<rparr>))))"

text \<open>
  \<open>buildModel\<close> returns the model, or the exception it throws, together with the raw
  profile as the call leaves it. \<open>stack\<close> is the number of nested calls the stack admits
  below \<open>buildModel\<close>.
\<close>

definition buildModel ::
    "PathUtils \<Rightarrow> nat \<Rightarrow> ICpuProfileRaw \<Rightarrow> (error + IProfileModel) \<times> ICpuProfileRaw" where
  "buildModel utils stack profile =
     (case (p_timeDeltas profile, p_samples profile) of
        (Some timeDeltas, Some samples) \<Rightarrow>
          (let (sourceLocations, profile1) = ensureSourceLocations utils profile
           in case buildLocations utils 0 sourceLocations profile1 of
                (Inl e, profile2) \<Rightarrow> (Inl e, profile2)
              | (Inr locations, profile2) \<Rightarrow>
                  (buildNodes stack profile2 samples timeDeltas locations, profile2))
      | _ \<Rightarrow>
          (Inr \<lparr> m_nodes = newArray 0, m_locations = [],
                 m_samples = (case p_samples profile of None \<Rightarrow> [] | Some s \<Rightarrow> s),
                 m_timeDeltas = (case p_timeDeltas profile of None \<Rightarrow> [] | Some t \<Rightarrow> t),
                 m_rootPath = rootPathOf profile,
                 duration = endTime profile - startTime profile \<rparr>,
           profile))"

section \<open>Example profiles\<close>

definition plainUtils :: PathUtils where
  "plainUtils = \<lparr> properRelative = (\<lambda>root path. path), maybeFileUrlToPath = (\<lambda>u. u) \<rparr>"

definition frameNamed :: "string \<Rightarrow> CallFrame" where
  "frameNamed f = \<lparr> functionName = f, scriptId = ''1'', url = ''file:///app.js'',
                     lineNumber = 1, columnNumber = 0 \<rparr>"

definition rawNode :: "int \<Rightarrow> string \<Rightarrow> int list \<Rightarrow> IProfileNode" where
  "rawNode i f cs = \<lparr> pn_id = i, pn_callFrame = frameNamed f, pn_children = Some cs,
                      pn_locationId = None, positionTicks = None \<rparr>"

text \<open>
  The scenario of the specification: root (id 1), child (id 2), grandchild (id 3), the
  1-based samples \<open>[1,2,3,3]\<close> and the time deltas \<open>[5,5,5]\<close>.
\<close>

definition chainProfile :: ICpuProfileRaw where
  "chainProfile =
     \<lparr> p_nodes = [rawNode 1 ''a'' [2], rawNode 2 ''b'' [3], rawNode 3 ''c'' []],
       startTime = 0, endTime = 15,
       p_samples = Some [1, 2, 3, 3], p_timeDeltas = Some [5, 5, 5],
       vscode = None \<rparr>"

text \<open>An aborted capture: nodes and a root path, but neither samples nor time deltas.\<close>

definition abortedProfile :: ICpuProfileRaw where
  "abortedProfile =
     \<lparr> p_nodes = [rawNode 1 ''a'' []],
       startTime = 100, endTime = 250,
       p_samples = None, p_timeDeltas = None,
       vscode = Some \<lparr> vs_rootPath = Some ''/work'', vs_locations = [] \<rparr> \<rparr>"

section \<open>The soft-fail branch of buildModel\<close>

text \<open>
  C5: for every raw profile in which the \<open>samples\<close> field or the \<open>timeDeltas\<close> field is
  absent, \<open>buildModel\<close> does not fail: it returns a model with no nodes and no locations,
  whose duration is \<open>endTime - startTime\<close> and whose root path is the configured one
  (\<open>profile.$vscode?.rootPath\<close>). The call needs no stack and leaves the profile as it was.
\<close>

theorem buildModel_soft_fail:
  "p_samples profile = None \<or> p_timeDeltas profile = None \<Longrightarrow>
   \<exists>m. buildModel utils stack profile = (Inr m, profile)
     \<and> len (m_nodes m) = 0 \<and> elems (m_nodes m) = Map.empty \<and> m_locations m = []
     \<and> duration m = endTime profile - startTime profile
     \<and> m_rootPath m = rootPathOf profile"
  by (auto simp: buildModel_def newArray_def split: option.splits)

theorem buildModel_soft_fail_witness:
  "(p_samples abortedProfile = None \<or> p_timeDeltas abortedProfile = None)
   \<and> (\<exists>m. buildModel plainUtils 0 abortedProfile = (Inr m, abortedProfile)
     \<and> len (m_nodes m) = 0 \<and> elems (m_nodes m) = Map.empty \<and> m_locations m = []
     \<and> duration m = 150 \<and> m_rootPath m = Some ''/work'')"
  using buildModel_soft_fail [of abortedProfile plainUtils 0]
  by (simp add: abortedProfile_def rootPathOf_def)

section \<open>Aggregate times are settled sums\<close>

text \<open>
  The aggregate time a node of the array holds now (0 for a key with no node), and the sum
  the source computes for a node: its self time plus the aggregate times of its children.
\<close>

definition aggOf :: "IComputedNode JsArray \<Rightarrow> int \<Rightarrow> int" where
  "aggOf nodes k = (case elems nodes k of None \<Rightarrow> 0 | Some n \<Rightarrow> cn_aggregateTime n)"

definition aggregateSum :: "IComputedNode JsArray \<Rightarrow> IComputedNode \<Rightarrow> int" where
  "aggregateSum nodes n = cn_selfTime n + sum_list (map (aggOf nodes) (cn_children n))"

text \<open>
  A node is settled when it holds that sum and all its children are settled; the predicate
  is the least one, so below a settled node the child lists have no cycle. The cache
  invariant: a node with a non-zero (cached) aggregate time is settled.
\<close>

inductive settled :: "IComputedNode JsArray \<Rightarrow> int \<Rightarrow> bool" for nodes where
  settledI: "elems nodes k = Some n \<Longrightarrow> cn_aggregateTime n = aggregateSum nodes n \<Longrightarrow>
     (\<forall>c \<in> set (cn_children n). settled nodes c) \<Longrightarrow> settled nodes k"

definition cacheInv :: "IComputedNode JsArray \<Rightarrow> bool" where
  "cacheInv nodes =
     (\<forall>k n. elems nodes k = Some n \<longrightarrow> cn_aggregateTime n \<noteq> 0 \<longrightarrow> settled nodes k)"

definition sameButAggregate :: "IComputedNode \<Rightarrow> IComputedNode \<Rightarrow> bool" where
  "sameButAggregate a b = (b = a\<lparr> cn_aggregateTime := cn_aggregateTime b \<rparr>)"

definition ext :: "IComputedNode JsArray \<Rightarrow> IComputedNode JsArray \<Rightarrow> bool" where
  "ext a b =
     (len b = len a
      \<and> (\<forall>k. settled a k \<longrightarrow> elems b k = elems a k)
      \<and> (\<forall>k. rel_option sameButAggregate (elems a k) (elems b k)))"

lemma sameButAggregate_refl [simp]: "sameButAggregate a a"
  by (simp add: sameButAggregate_def)

lemma sameButAggregate_trans:
  "sameButAggregate a b \<Longrightarrow> sameButAggregate b c \<Longrightarrow> sameButAggregate a c"
  unfolding sameButAggregate_def
  by (metis IComputedNode.surjective IComputedNode.update_convs(3))

lemma sameButAggregate_fields:
  "sameButAggregate a b \<Longrightarrow>
     cn_selfTime b = cn_selfTime a \<and> cn_children b = cn_children a \<and> cn_id b = cn_id a
     \<and> cn_parent b = cn_parent a \<and> cn_locationId b = cn_locationId a"
  unfolding sameButAggregate_def by (metis IComputedNode.select_convs IComputedNode.surjective IComputedNode.update_convs(3))

lemma ext_refl [simp]: "ext a a"
  by (simp add: ext_def option.rel_refl)

lemma aggregateSum_cong:
  assumes "\<forall>c \<in> set (cn_children n). aggOf b c = aggOf a c"
    and "cn_children m = cn_children n" and "cn_selfTime m = cn_selfTime n"
  shows "aggregateSum b m = aggregateSum a n"
proof -
  have "map (aggOf b) (cn_children n) = map (aggOf a) (cn_children n)"
    using assms(1) by simp
  then show ?thesis using assms(2,3) by (simp only: aggregateSum_def)
qed

lemma settled_elems:
  "settled a k \<Longrightarrow> \<forall>j. settled a j \<longrightarrow> elems b j = elems a j \<Longrightarrow> settled b k"
proof (induction rule: settled.induct)
  case (settledI k n)
  have ch: "\<forall>c \<in> set (cn_children n). settled a c"
    using settledI.IH by blast
  have "settled a k"
    using settledI.hyps ch by (rule settled.settledI)
  then have e: "elems b k = Some n"
    using settledI.hyps(1) settledI.prems by simp
  have "\<forall>c \<in> set (cn_children n). aggOf b c = aggOf a c"
    using ch settledI.prems by (simp add: aggOf_def)
  then have "cn_aggregateTime n = aggregateSum b n"
    using settledI.hyps(2) aggregateSum_cong[of n b a n] by simp
  moreover have "\<forall>c \<in> set (cn_children n). settled b c"
    using settledI.IH settledI.prems by blast
  ultimately show ?case using e by (simp add: settled.settledI)
qed

lemma settled_ext: "ext a b \<Longrightarrow> settled a k \<Longrightarrow> settled b k"
  using settled_elems by (simp add: ext_def)

lemma ext_trans: "ext a b \<Longrightarrow> ext b c \<Longrightarrow> ext a c"
proof -
  assume ab: "ext a b" and bc: "ext b c"
  have "\<forall>k. settled a k \<longrightarrow> elems c k = elems a k"
    using ab bc settled_ext[OF ab] by (simp add: ext_def)
  moreover have "\<forall>k. rel_option sameButAggregate (elems a k) (elems c k)"
  proof
    fix k
    have 1: "rel_option sameButAggregate (elems a k) (elems b k)" using ab by (simp add: ext_def)
    have 2: "rel_option sameButAggregate (elems b k) (elems c k)" using bc by (simp add: ext_def)
    show "rel_option sameButAggregate (elems a k) (elems c k)"
      using 1 2 by (cases "elems a k"; cases "elems b k"; cases "elems c k")
                   (auto intro: sameButAggregate_trans)
  qed
  moreover have "len c = len a" using ab bc by (simp add: ext_def)
  ultimately show ?thesis by (simp add: ext_def)
qed

lemma modifyAt_same:
  "elems arr k = Some v \<Longrightarrow> f v = v \<Longrightarrow> modifyAt k f arr = arr"
  by (simp add: modifyAt_def map_upd_triv)

lemma elems_modifyAt:
  "elems (modifyAt k f arr) j = (if j = k then map_option f (elems arr k) else elems arr j)"
  by (cases "elems arr k") (simp_all add: modifyAt_def)

lemma aggOf_cong: "elems b c = elems a c \<Longrightarrow> aggOf b c = aggOf a c"
  by (simp add: aggOf_def)

text \<open>Writing the sum to a node that is not settled yet.\<close>

lemma ext_write:
  assumes inv: "cacheInv n1"
    and row: "elems n1 index = Some row1"
    and ch: "\<forall>c \<in> set (cn_children row1). settled n1 c"
    and tot: "tot = aggregateSum n1 row1"
    and zero: "cn_aggregateTime row1 = 0"
  defines "n2 \<equiv> modifyAt index (\<lambda>r. r\<lparr> cn_aggregateTime := tot \<rparr>) n1"
  shows "ext n1 n2 \<and> settled n2 index \<and> cacheInv n2 \<and> aggOf n2 index = tot"
proof (cases "settled n1 index")
  case True
  then have "cn_aggregateTime row1 = aggregateSum n1 row1"
    using row by (auto elim: settled.cases)
  then have "n2 = n1"
    unfolding n2_def using row tot by (simp add: modifyAt_same)
  then show ?thesis using True inv row tot \<open>cn_aggregateTime row1 = aggregateSum n1 row1\<close>
    by (simp add: aggOf_def)
next
  case False
  have other: "\<forall>k. settled n1 k \<longrightarrow> elems n2 k = elems n1 k"
    using False by (auto simp: n2_def elems_modifyAt)
  have rel: "\<forall>k. rel_option sameButAggregate (elems n1 k) (elems n2 k)"
    using row by (auto simp: n2_def elems_modifyAt option.rel_refl sameButAggregate_def)
  have e: "ext n1 n2"
    using other rel by (simp add: ext_def n2_def)
  have e2: "elems n2 index = Some (row1\<lparr> cn_aggregateTime := tot \<rparr>)"
    using row by (simp add: n2_def elems_modifyAt)
  have "\<forall>c \<in> set (cn_children row1). aggOf n2 c = aggOf n1 c"
    using ch other by (simp add: aggOf_def)
  then have good: "cn_aggregateTime (row1\<lparr> cn_aggregateTime := tot \<rparr>)
      = aggregateSum n2 (row1\<lparr> cn_aggregateTime := tot \<rparr>)"
    using tot aggregateSum_cong[of row1 n2 n1 "row1\<lparr> cn_aggregateTime := tot \<rparr>"] by simp
  have ch2: "\<forall>c \<in> set (cn_children (row1\<lparr> cn_aggregateTime := tot \<rparr>)). settled n2 c"
    using ch settled_ext[OF e] by simp
  have s: "settled n2 index"
    using e2 good ch2 by (rule settled.settledI)
  have "cacheInv n2"
    unfolding cacheInv_def
  proof (intro allI impI)
    fix k n
    assume k: "elems n2 k = Some n" and nz: "cn_aggregateTime n \<noteq> 0"
    show "settled n2 k"
    proof (cases "k = index")
      case True
      then show ?thesis using s by simp
    next
      case False
      then have "elems n1 k = Some n" using k by (simp add: n2_def elems_modifyAt)
      then have "settled n1 k" using inv nz by (simp add: cacheInv_def)
      then show ?thesis by (rule settled_ext[OF e])
    qed
  qed
  then show ?thesis using e s e2 by (simp add: aggOf_def)
qed


lemma ext_row:
  "ext a b \<Longrightarrow> elems a k = Some row \<Longrightarrow>
   \<exists>row1. elems b k = Some row1 \<and> sameButAggregate row row1"
  unfolding ext_def by (metis option.rel_inject(2) option.rel_sel option.collapse option.sel option.simps(3) rel_option_None1)

lemma computeAggregateTime_settles:
  "cacheInv nodes \<Longrightarrow> computeAggregateTime depth index nodes = Inr (v, nodes') \<Longrightarrow>
     cacheInv nodes' \<and> settled nodes' index \<and> v = aggOf nodes' index \<and> ext nodes nodes'"
  "cacheInv nodes \<Longrightarrow> sumChildren depth cs tot nodes = Inr (v, nodes') \<Longrightarrow>
     cacheInv nodes' \<and> (\<forall>c \<in> set cs. settled nodes' c)
     \<and> v = tot + sum_list (map (aggOf nodes') cs) \<and> ext nodes nodes'"
proof (induction depth index nodes and depth cs tot nodes
        arbitrary: v nodes' and v nodes' rule: computeAggregateTime_sumChildren.induct)
  case (1 index nodes)
  then show ?case by simp
next
  case (2 depth index nodes)
  from "2.prems"(2) obtain row where row: "elems nodes index = Some row"
    by (cases "elems nodes index") auto
  show ?case
  proof (cases "cn_aggregateTime row \<noteq> 0")
    case True
    then have "nodes' = nodes" "v = cn_aggregateTime row"
      using "2.prems"(2) row by auto
    then show ?thesis
      using "2.prems"(1) row True by (simp add: cacheInv_def aggOf_def)
  next
    case False
    with "2.prems"(2) row obtain n1 where
      s: "sumChildren depth (cn_children row) (cn_selfTime row) nodes = Inr (v, n1)"
      and n: "nodes' = modifyAt index (\<lambda>r. r\<lparr> cn_aggregateTime := v \<rparr>) n1"
      by (cases "sumChildren depth (cn_children row) (cn_selfTime row) nodes") auto
    from "2.IH"[OF row False "2.prems"(1) s]
    have inv1: "cacheInv n1" and ch: "\<forall>c \<in> set (cn_children row). settled n1 c"
      and v: "v = cn_selfTime row + sum_list (map (aggOf n1) (cn_children row))"
      and e1: "ext nodes n1"
      by simp_all
    from ext_row[OF e1 row] obtain row1 where
      row1: "elems n1 index = Some row1" and same: "sameButAggregate row row1"
      by blast
    note f = sameButAggregate_fields[OF same]
    show ?thesis
    proof (cases "settled n1 index")
      case True
      then have "cn_aggregateTime row1 = aggregateSum n1 row1"
        using row1 by (auto elim: settled.cases)
      then have "cn_aggregateTime row1 = v"
        using v f by (simp add: aggregateSum_def)
      then have "nodes' = n1"
        using n row1 by (simp add: modifyAt_same)
      then show ?thesis
        using inv1 True e1 row1 \<open>cn_aggregateTime row1 = v\<close> by (simp add: aggOf_def)
    next
      case False
      have z: "cn_aggregateTime row1 = 0"
        using inv1 row1 False by (auto simp: cacheInv_def)
      have "ext n1 nodes' \<and> settled nodes' index \<and> cacheInv nodes' \<and> aggOf nodes' index = v"
        unfolding n
        by (rule ext_write[OF inv1 row1 _ _ z]) (use ch v f in \<open>simp_all add: aggregateSum_def\<close>)
      then show ?thesis using ext_trans[OF e1] by simp
    qed
  qed
next
  case (3 depth tot nodes)
  then show ?case by simp
next
  case (4 depth child rest tot nodes)
  from "4.prems"(2) obtain w n1 where
    c: "computeAggregateTime depth child nodes = Inr (w, n1)"
    and s: "sumChildren depth rest (tot + w) n1 = Inr (v, nodes')"
    by (cases "computeAggregateTime depth child nodes") auto
  from "4.IH"(1)[OF "4.prems"(1) c]
  have inv1: "cacheInv n1" and sc: "settled n1 child" and w: "w = aggOf n1 child"
    and e1: "ext nodes n1"
    by simp_all
  from "4.IH"(2)[OF c refl inv1 s]
  have inv2: "cacheInv nodes'" and sr: "\<forall>c \<in> set rest. settled nodes' c"
    and v: "v = tot + w + sum_list (map (aggOf nodes') rest)" and e2: "ext n1 nodes'"
    by simp_all
  have "elems nodes' child = elems n1 child"
    using e2 sc by (simp add: ext_def)
  then have "aggOf nodes' child = w"
    using w by (simp add: aggOf_def)
  then show ?case
    using inv2 sr v settled_ext[OF e2 sc] ext_trans[OF e1 e2] by simp
qed


lemma computeAggregateTime_rerun:
  "settled nodes index \<Longrightarrow> computeAggregateTime depth index nodes = Inr (v, nodes') \<Longrightarrow>
     nodes' = nodes \<and> v = aggOf nodes index"
  "\<forall>c \<in> set cs. settled nodes c \<Longrightarrow> sumChildren depth cs tot nodes = Inr (v, nodes') \<Longrightarrow>
     nodes' = nodes \<and> v = tot + sum_list (map (aggOf nodes) cs)"
proof (induction depth index nodes and depth cs tot nodes
        arbitrary: v nodes' and v nodes' rule: computeAggregateTime_sumChildren.induct)
  case (1 index nodes)
  then show ?case by simp
next
  case (2 depth index nodes)
  from "2.prems"(1) obtain row where row: "elems nodes index = Some row"
    and good: "cn_aggregateTime row = aggregateSum nodes row"
    and ch: "\<forall>c \<in> set (cn_children row). settled nodes c"
    by (auto elim: settled.cases)
  show ?case
  proof (cases "cn_aggregateTime row \<noteq> 0")
    case True
    then show ?thesis using "2.prems"(2) row by (auto simp: aggOf_def)
  next
    case False
    with "2.prems"(2) row obtain n1 where
      s: "sumChildren depth (cn_children row) (cn_selfTime row) nodes = Inr (v, n1)"
      and n: "nodes' = modifyAt index (\<lambda>r. r\<lparr> cn_aggregateTime := v \<rparr>) n1"
      by (cases "sumChildren depth (cn_children row) (cn_selfTime row) nodes") auto
    from "2.IH"[OF row False ch s]
    have "n1 = nodes" and "v = aggregateSum nodes row"
      by (simp_all add: aggregateSum_def)
    then show ?thesis
      using n row good by (simp add: modifyAt_same aggOf_def)
  qed
next
  case (3 depth tot nodes)
  then show ?case by simp
next
  case (4 depth child rest tot nodes)
  from "4.prems"(2) obtain w n1 where
    c: "computeAggregateTime depth child nodes = Inr (w, n1)"
    and s: "sumChildren depth rest (tot + w) n1 = Inr (v, nodes')"
    by (cases "computeAggregateTime depth child nodes") auto
  from "4.IH"(1)[OF _ c] "4.prems"(1)
  have 1: "n1 = nodes" "w = aggOf nodes child" by simp_all
  from "4.IH"(2)[OF c refl _ s] "4.prems"(1) 1
  show ?case by simp
qed

lemma sumChildren_cached:
  "\<forall>c \<in> set cs. computeAggregateTime depth c nodes = Inr (aggOf nodes c, nodes) \<Longrightarrow>
   sumChildren depth cs tot nodes = Inr (tot + sum_list (map (aggOf nodes) cs), nodes)"
  by (induction cs arbitrary: tot) (simp_all add: add.assoc)

lemma uniform_depth:
  "\<forall>c \<in> set cs. \<exists>d. \<forall>depth \<ge> d. P c depth \<Longrightarrow> \<exists>d::nat. \<forall>c \<in> set cs. \<forall>depth \<ge> d. P c depth"
proof (induction cs)
  case Nil
  then show ?case by simp
next
  case (Cons c cs)
  then obtain d1 where d1: "\<forall>x \<in> set cs. \<forall>depth \<ge> d1. P x depth" by auto
  from Cons.prems obtain d2 where d2: "\<forall>depth \<ge> d2. P c depth" by auto
  have "\<forall>x \<in> set (c # cs). \<forall>depth \<ge> max d1 d2. P x depth"
    using d1 d2 by auto
  then show ?case by blast
qed

lemma settled_enough_stack:
  "settled nodes k \<Longrightarrow>
   \<exists>d. \<forall>depth \<ge> d. computeAggregateTime depth k nodes = Inr (aggOf nodes k, nodes)"
proof (induction rule: settled.induct)
  case (settledI k n)
  have "\<forall>c \<in> set (cn_children n).
          \<exists>d. \<forall>depth \<ge> d. computeAggregateTime depth c nodes = Inr (aggOf nodes c, nodes)"
    using settledI.IH by blast
  from uniform_depth[where P = "\<lambda>c depth. computeAggregateTime depth c nodes = Inr (aggOf nodes c, nodes)", OF this]
  obtain d where d: "\<forall>c \<in> set (cn_children n). \<forall>depth \<ge> d.
      computeAggregateTime depth c nodes = Inr (aggOf nodes c, nodes)"
    by blast
  have "\<forall>depth \<ge> Suc d. computeAggregateTime depth k nodes = Inr (aggOf nodes k, nodes)"
  proof (intro allI impI)
    fix depth assume "Suc d \<le> depth"
    then obtain depth' where dp: "depth = Suc depth'" and ge: "d \<le> depth'"
      by (cases depth) auto
    have "sumChildren depth' (cn_children n) (cn_selfTime n) nodes
            = Inr (aggregateSum nodes n, nodes)"
      unfolding aggregateSum_def by (rule sumChildren_cached) (use d ge in simp)
    then show "computeAggregateTime depth k nodes = Inr (aggOf nodes k, nodes)"
      using settledI.hyps dp by (simp add: aggOf_def modifyAt_same)
  qed
  then show ?case by blast
qed

section \<open>The passes of buildModel\<close>

definition freshNodes :: "IComputedNode JsArray \<Rightarrow> bool" where
  "freshNodes nodes =
     (\<forall>k n. elems nodes k = Some n \<longrightarrow> cn_selfTime n = 0 \<and> cn_aggregateTime n = 0)"

lemma length_addTicks: "addTicks ts locs = Inr locs' \<Longrightarrow> length locs' = length locs"
  by (induction ts arbitrary: locs) (auto split: option.splits if_splits)

lemma fillNodes_props:
  "fillNodes ps nodes locs = Inr (nodes', locs') \<Longrightarrow> finite (dom (elems nodes)) \<Longrightarrow>
   freshNodes nodes \<Longrightarrow>
     finite (dom (elems nodes')) \<and> card (dom (elems nodes')) \<le> card (dom (elems nodes)) + length ps
     \<and> len nodes \<le> len nodes' \<and> freshNodes nodes' \<and> length locs' = length locs"
proof (induction ps arbitrary: nodes locs)
  case Nil
  then show ?case by simp
next
  case (Cons node rest)
  define n1 where "n1 = setAt (pn_id node - 1)
              \<lparr> cn_id = pn_id node - 1, cn_selfTime = 0, cn_aggregateTime = 0,
                cn_children = (case pn_children node of
                                 None \<Rightarrow> []
                               | Some cs \<Rightarrow> map (\<lambda>n. n - 1) cs),
                cn_parent = None, cn_locationId = pn_locationId node \<rparr>
              nodes"
  from Cons.prems(1) obtain l1 where
    t: "addTicks (case positionTicks node of None \<Rightarrow> [] | Some ts \<Rightarrow> ts) locs = Inr l1"
    and r: "fillNodes rest n1 l1 = Inr (nodes', locs')"
    by (auto simp: n1_def Let_def split: sum.splits)
  have fin: "finite (dom (elems n1))" using Cons.prems(2) by (simp add: n1_def setAt_def)
  have c: "card (dom (elems n1)) \<le> card (dom (elems nodes)) + 1"
    using Cons.prems(2) by (simp add: n1_def setAt_def card_insert_if)
  have l: "len nodes \<le> len n1" by (simp add: n1_def setAt_def)
  have fr: "freshNodes n1" using Cons.prems(3) by (auto simp: n1_def setAt_def freshNodes_def)
  from Cons.IH[OF r fin fr] c l length_addTicks[OF t]
  show ?case by simp
qed


definition sameButParent :: "IComputedNode \<Rightarrow> IComputedNode \<Rightarrow> bool" where
  "sameButParent a b = (b = a\<lparr> cn_parent := cn_parent b \<rparr>)"

lemma sameButParent_refl [simp]: "sameButParent a a"
  by (simp add: sameButParent_def)

lemma sameButParent_trans:
  "sameButParent a b \<Longrightarrow> sameButParent b c \<Longrightarrow> sameButParent a c"
  unfolding sameButParent_def
  by (metis IComputedNode.surjective IComputedNode.update_convs(5))

lemma sameButParent_fields:
  "sameButParent a b \<Longrightarrow>
     cn_selfTime b = cn_selfTime a \<and> cn_children b = cn_children a \<and> cn_id b = cn_id a
     \<and> cn_aggregateTime b = cn_aggregateTime a \<and> cn_locationId b = cn_locationId a"
  unfolding sameButParent_def
  by (metis IComputedNode.select_convs IComputedNode.surjective IComputedNode.update_convs(5))

lemma rel_option_trans:
  assumes "\<And>x y z. R x y \<Longrightarrow> S y z \<Longrightarrow> T x z"
    and "rel_option R a b" and "rel_option S b c"
  shows "rel_option T a c"
  using assms by (cases a; cases b; cases c) auto

lemma rel_option_dom:
  "\<forall>k. rel_option (R k) (f k) (g k) \<Longrightarrow> dom g = dom f"
  by (auto simp: dom_def) (metis option.rel_distinct option.exhaust)+

lemma setParents_props:
  "setParents cs pid nodes = Inr nodes' \<Longrightarrow>
     len nodes' = len nodes \<and> (\<forall>k. rel_option sameButParent (elems nodes k) (elems nodes' k))"
proof (induction cs arbitrary: nodes)
  case Nil
  then show ?case by (simp add: option.rel_refl)
next
  case (Cons child rest)
  define n1 where "n1 = modifyAt child (\<lambda>r. r\<lparr> cn_parent := Some pid \<rparr>) nodes"
  from Cons.prems have r: "setParents rest pid n1 = Inr nodes'"
    by (auto simp: n1_def split: option.splits)
  have 1: "\<forall>k. rel_option sameButParent (elems nodes k) (elems n1 k)"
    by (auto simp: n1_def elems_modifyAt option.rel_refl sameButParent_def option.rel_map
             intro!: option.rel_refl_strong)
  from Cons.IH[OF r] have 2: "len nodes' = len n1"
    and 3: "\<forall>k. rel_option sameButParent (elems n1 k) (elems nodes' k)" by simp_all
  have "\<forall>k. rel_option sameButParent (elems nodes k) (elems nodes' k)"
    using 1 3 by (blast intro: rel_option_trans[of sameButParent sameButParent] sameButParent_trans)
  then show ?case using 2 by (simp add: n1_def)
qed

lemma linkParents_props:
  "linkParents i nodes = Inr nodes' \<Longrightarrow>
     len nodes' = len nodes \<and> (\<forall>k. rel_option sameButParent (elems nodes k) (elems nodes' k))
     \<and> (\<forall>j. i \<le> j \<and> j < len nodes \<longrightarrow> elems nodes (int j) \<noteq> None)"
proof (induction i nodes rule: linkParents.induct)
  case (1 i nodes)
  show ?case
  proof (cases "i < len nodes")
    case False
    then have "nodes' = nodes" using "1.prems" by (simp add: linkParents.simps)
    then show ?thesis using False by (auto simp: option.rel_refl)
  next
    case True
    with "1.prems" obtain node n1 where
      node: "elems nodes (int i) = Some node"
      and sp: "setParents (cn_children node) (cn_id node) nodes = Inr n1"
      and r: "linkParents (Suc i) n1 = Inr nodes'"
      by (subst (asm) linkParents.simps) (auto split: option.splits sum.splits)
    from setParents_props[OF sp] have l1: "len n1 = len nodes"
      and r1: "\<forall>k. rel_option sameButParent (elems nodes k) (elems n1 k)" by simp_all
    from "1.IH"[OF True node sp r] have l2: "len nodes' = len n1"
      and r2: "\<forall>k. rel_option sameButParent (elems n1 k) (elems nodes' k)"
      and d2: "\<forall>j. Suc i \<le> j \<and> j < len n1 \<longrightarrow> elems n1 (int j) \<noteq> None" by simp_all
    have "\<forall>k. rel_option sameButParent (elems nodes k) (elems nodes' k)"
      using r1 r2 by (blast intro: rel_option_trans[of sameButParent sameButParent] sameButParent_trans)
    moreover have "\<forall>j. i \<le> j \<and> j < len nodes \<longrightarrow> elems nodes (int j) \<noteq> None"
    proof (intro allI impI)
      fix j assume j: "i \<le> j \<and> j < len nodes"
      show "elems nodes (int j) \<noteq> None"
      proof (cases "j = i")
        case True
        then show ?thesis using node by simp
      next
        case False
        then have "elems n1 (int j) \<noteq> None" using d2 j l1 by simp
        moreover have "dom (elems n1) = dom (elems nodes)" using r1 by (rule rel_option_dom)
        ultimately show ?thesis by (auto simp: dom_def)
      qed
    qed
    ultimately show ?thesis using l1 l2 by simp
  qed
qed

lemma dom_exact:
  assumes "finite D" and "card D \<le> n" and "n \<le> L" and "int ` {0..<L} \<subseteq> D"
  shows "D = int ` {0..<L} \<and> L = n"
proof -
  have c: "card (int ` {0..<L}) = L" by (simp add: card_image)
  then have "L \<le> card D" using assms(1,4) by (metis card_mono)
  then have "card (int ` {0..<L}) = card D" and "L = n" using c assms(2,3) by simp_all
  then show ?thesis using assms(1,4) by (metis card_subset_eq)
qed


definition attributed :: "int list \<Rightarrow> int list \<Rightarrow> nat \<Rightarrow> int \<Rightarrow> int" where
  "attributed samples timeDeltas i k =
     (\<Sum>j\<leftarrow>[i..<length timeDeltas]. if samples ! j - 1 = k then timeDeltas ! (j - 1) else 0)"

lemma attributed_step:
  "i < length tds \<Longrightarrow>
   attributed smps tds i k =
     (if smps ! i - 1 = k then tds ! (i - 1) else 0) + attributed smps tds (Suc i) k"
  by (simp add: attributed_def upt_conv_Cons)

lemma attributed_done: "\<not> i < length tds \<Longrightarrow> attributed smps tds i k = 0"
  by (simp add: attributed_def)

lemma at_Some: "at xs i = Some x \<longleftrightarrow> 0 \<le> i \<and> i < int (length xs) \<and> x = xs ! nat i"
  by (auto simp: at_def)

lemma addSelfTimes_props:
  "addSelfTimes i smps tds nodes = Inr nodes' \<Longrightarrow>
     len nodes' = len nodes
     \<and> (\<forall>k. rel_option (\<lambda>a b. b = a\<lparr> cn_selfTime := cn_selfTime a + attributed smps tds i k \<rparr>)
               (elems nodes k) (elems nodes' k))
     \<and> (\<forall>j. i \<le> j \<and> j < length tds \<longrightarrow> j < length smps \<and> elems nodes (smps ! j - 1) \<noteq> None)"
proof (induction i smps tds nodes rule: addSelfTimes.induct)
  case (1 i smps tds nodes)
  show ?case
  proof (cases "i < length tds")
    case False
    then have "nodes' = nodes" using "1.prems" by (simp add: addSelfTimes.simps)
    then show ?thesis using False
      by (auto simp: attributed_done intro!: option.rel_refl_strong)
  next
    case True
    define s where "s = smps ! i"
    define n1 where "n1 = modifyAt (s - 1)
        (\<lambda>r. r\<lparr> cn_selfTime := cn_selfTime r + tds ! (i - 1) \<rparr>) nodes"
    from True "1.prems" obtain old where
      a: "at smps (int i) = Some s" and old: "elems nodes (s - 1) = Some old"
      and r: "addSelfTimes (Suc i) smps tds n1 = Inr nodes'"
      by (subst (asm) addSelfTimes.simps) (auto simp: s_def n1_def at_Some split: option.splits)
    have il: "i < length smps" using a by (auto simp: at_Some)
    from "1.IH"[OF True a old] r have l2: "len nodes' = len n1"
      and r2: "\<forall>k. rel_option (\<lambda>a b. b = a\<lparr> cn_selfTime := cn_selfTime a + attributed smps tds (Suc i) k \<rparr>)
               (elems n1 k) (elems nodes' k)"
      and d2: "\<forall>j. Suc i \<le> j \<and> j < length tds \<longrightarrow> j < length smps \<and> elems n1 (smps ! j - 1) \<noteq> None"
      by (simp_all add: n1_def)
    have r1: "\<forall>k. rel_option (\<lambda>a b. b = a\<lparr> cn_selfTime := cn_selfTime a +
                  (if smps ! i - 1 = k then tds ! (i - 1) else 0) \<rparr>) (elems nodes k) (elems n1 k)"
      by (auto simp: n1_def s_def elems_modifyAt option.rel_map intro!: option.rel_refl_strong)
    have "\<forall>k. rel_option (\<lambda>a b. b = a\<lparr> cn_selfTime := cn_selfTime a + attributed smps tds i k \<rparr>)
               (elems nodes k) (elems nodes' k)"
    proof
      fix k
      show "rel_option (\<lambda>a b. b = a\<lparr> cn_selfTime := cn_selfTime a + attributed smps tds i k \<rparr>)
               (elems nodes k) (elems nodes' k)"
        by (rule rel_option_trans[OF _ r1[rule_format, of k] r2[rule_format, of k]])
           (simp add: attributed_step[OF True] add.assoc)
    qed
    moreover have "\<forall>j. i \<le> j \<and> j < length tds \<longrightarrow> j < length smps \<and> elems nodes (smps ! j - 1) \<noteq> None"
    proof (intro allI impI)
      fix j assume j: "i \<le> j \<and> j < length tds"
      show "j < length smps \<and> elems nodes (smps ! j - 1) \<noteq> None"
      proof (cases "j = i")
        case True
        then show ?thesis using il old by (simp add: s_def)
      next
        case False
        then have "j < length smps \<and> elems n1 (smps ! j - 1) \<noteq> None" using d2 j by simp
        moreover have "dom (elems n1) = dom (elems nodes)" using r1 by (rule rel_option_dom)
        ultimately show ?thesis by (auto simp: dom_def)
      qed
    qed
    ultimately show ?thesis using l2 by (simp add: n1_def)
  qed
qed

lemma atOpt_length: "length ys = length xs \<Longrightarrow> atOpt xs i \<noteq> None \<Longrightarrow> atOpt ys i \<noteq> None"
  by (auto simp: atOpt_def at_def split: option.splits)

lemma aggregateAll_props:
  "aggregateAll stack i nodes locs = Inr (nodes', locs') \<Longrightarrow> cacheInv nodes \<Longrightarrow>
   \<forall>j<i. settled nodes (int j) \<Longrightarrow>
     cacheInv nodes' \<and> (\<forall>j<len nodes. settled nodes' (int j)) \<and> ext nodes nodes'
     \<and> length locs' = length locs
     \<and> (\<forall>j n. i \<le> j \<and> j < len nodes \<and> elems nodes (int j) = Some n
            \<longrightarrow> atOpt locs (cn_locationId n) \<noteq> None)"
proof (induction stack i nodes locs rule: aggregateAll.induct)
  case (1 stack i nodes locs)
  show ?case
  proof (cases "i < len nodes")
    case False
    then have "nodes' = nodes" "locs' = locs" using "1.prems"(1) by (simp_all add: aggregateAll.simps)
    then show ?thesis using False "1.prems"(2,3) by auto
  next
    case True
    with "1.prems"(1) obtain node l v n1 where
      node: "elems nodes (int i) = Some node"
      and l: "atOpt locs (cn_locationId node) = Some l"
      and c: "computeAggregateTime stack (int i) nodes = Inr (v, n1)"
      by (subst (asm) aggregateAll.simps) (auto split: option.splits sum.splits)
    define l1 where "l1 = locs[nat (the (cn_locationId node)) :=
                            (locs ! nat (the (cn_locationId node)))
                              \<lparr> loc_aggregateTime :=
                                  loc_aggregateTime (locs ! nat (the (cn_locationId node))) + v,
                                loc_selfTime :=
                                  loc_selfTime (locs ! nat (the (cn_locationId node)))
                                  + cn_selfTime (currentAt n1 (int i) node) \<rparr>]"
    from True "1.prems"(1) node l c have r: "aggregateAll stack (Suc i) n1 l1 = Inr (nodes', locs')"
      by (subst (asm) aggregateAll.simps) (simp add: l1_def)
    from computeAggregateTime_settles(1)[OF "1.prems"(2) c]
    have inv1: "cacheInv n1" and si: "settled n1 (int i)" and e1: "ext nodes n1" by simp_all
    have pre: "\<forall>j<Suc i. settled n1 (int j)"
      using "1.prems"(3) si settled_ext[OF e1] by (auto simp: less_Suc_eq)
    have len1: "len n1 = len nodes" using e1 by (simp add: ext_def)
    have ll: "length l1 = length locs" by (simp add: l1_def)
    from "1.IH"[OF True node l c refl r[unfolded l1_def] inv1 pre, folded l1_def]
    have inv2: "cacheInv nodes'" and all: "\<forall>j<len n1. settled nodes' (int j)"
      and e2: "ext n1 nodes'" and ll2: "length locs' = length l1"
      and lc: "\<forall>j n. Suc i \<le> j \<and> j < len n1 \<and> elems n1 (int j) = Some n
            \<longrightarrow> atOpt l1 (cn_locationId n) \<noteq> None"
      by simp_all
    have "\<forall>j n. i \<le> j \<and> j < len nodes \<and> elems nodes (int j) = Some n
            \<longrightarrow> atOpt locs (cn_locationId n) \<noteq> None"
    proof (intro allI impI)
      fix j n assume j: "i \<le> j \<and> j < len nodes \<and> elems nodes (int j) = Some n"
      show "atOpt locs (cn_locationId n) \<noteq> None"
      proof (cases "j = i")
        case True
        then show ?thesis using j node l by simp
      next
        case False
        from j ext_row[OF e1] obtain n' where n': "elems n1 (int j) = Some n'"
          and sm: "sameButAggregate n n'" by blast
        moreover have "Suc i \<le> j" "j < len n1" using j False len1 by simp_all
        ultimately have "atOpt l1 (cn_locationId n') \<noteq> None" using lc by blast
        then show ?thesis using sameButAggregate_fields[OF sm] atOpt_length[OF ll[symmetric]] by simp
      qed
    qed
    then show ?thesis using inv2 all ext_trans[OF e1 e2] ll ll2 len1 by simp
  qed
qed


definition selfTimeAt :: "IComputedNode JsArray \<Rightarrow> int \<Rightarrow> int" where
  "selfTimeAt nodes k = (case elems nodes k of None \<Rightarrow> 0 | Some n \<Rightarrow> cn_selfTime n)"

definition totalSelfTime :: "IComputedNode JsArray \<Rightarrow> int" where
  "totalSelfTime nodes = (\<Sum>i\<leftarrow>[0..<len nodes]. selfTimeAt nodes (int i))"

lemma freshNodes_cacheInv: "\<forall>k n. elems nodes k = Some n \<longrightarrow> cn_aggregateTime n = 0 \<Longrightarrow> cacheInv nodes"
  by (simp add: cacheInv_def)

text \<open>
  Parent links. Step 1 stores every node under its own id with no parent, and the loop
  that follows sets \<open>nodes[child].parent = node.id\<close> for the children of each node: so the
  parent a node holds is the key of a node that lists it among its children.
\<close>

definition selfKeyed :: "IComputedNode JsArray \<Rightarrow> bool" where
  "selfKeyed nodes = (\<forall>k n. elems nodes k = Some n \<longrightarrow> cn_id n = k)"

definition linked :: "IComputedNode JsArray \<Rightarrow> bool" where
  "linked nodes =
     (\<forall>k n p. elems nodes k = Some n \<longrightarrow> cn_parent n = Some p \<longrightarrow>
        (\<exists>pn. elems nodes p = Some pn \<and> k \<in> set (cn_children pn)))"

lemma fillNodes_links:
  "fillNodes ps nodes locs = Inr (nodes', locs') \<Longrightarrow>
   \<forall>k n. elems nodes k = Some n \<longrightarrow> cn_id n = k \<and> cn_parent n = None \<Longrightarrow>
   \<forall>k n. elems nodes' k = Some n \<longrightarrow> cn_id n = k \<and> cn_parent n = None"
proof (induction ps arbitrary: nodes locs)
  case Nil
  then show ?case by simp
next
  case (Cons node rest)
  define n1 where "n1 = setAt (pn_id node - 1)
              \<lparr> cn_id = pn_id node - 1, cn_selfTime = 0, cn_aggregateTime = 0,
                cn_children = (case pn_children node of
                                 None \<Rightarrow> []
                               | Some cs \<Rightarrow> map (\<lambda>n. n - 1) cs),
                cn_parent = None, cn_locationId = pn_locationId node \<rparr>
              nodes"
  from Cons.prems(1) obtain l1 where r: "fillNodes rest n1 l1 = Inr (nodes', locs')"
    by (auto simp: n1_def Let_def split: sum.splits)
  have "\<forall>k n. elems n1 k = Some n \<longrightarrow> cn_id n = k \<and> cn_parent n = None"
    using Cons.prems(2) by (auto simp: n1_def setAt_def)
  from Cons.IH[OF r this] show ?case .
qed

lemma linked_rel:
  assumes "linked a"
    and "\<forall>k. rel_option (\<lambda>x y. cn_parent y = cn_parent x \<and> cn_children y = cn_children x)
                (elems a k) (elems b k)"
  shows "linked b"
  unfolding linked_def
proof (intro allI impI)
  fix k n p assume k: "elems b k = Some n" and pa: "cn_parent n = Some p"
  from assms(2)[rule_format, of k] k obtain n0 where
    n0: "elems a k = Some n0" "cn_parent n = cn_parent n0"
    by (cases "elems a k") auto
  from assms(1) n0 pa obtain pn0 where
    pn0: "elems a p = Some pn0" "k \<in> set (cn_children pn0)"
    unfolding linked_def by force
  from assms(2)[rule_format, of p] pn0(1) obtain pn where
    "elems b p = Some pn" "cn_children pn = cn_children pn0"
    by (cases "elems b p") auto
  then show "\<exists>pn. elems b p = Some pn \<and> k \<in> set (cn_children pn)"
    using pn0(2) by simp
qed

lemma setParents_links:
  "setParents cs pid nodes = Inr nodes' \<Longrightarrow> linked nodes \<Longrightarrow>
   \<exists>pn. elems nodes pid = Some pn \<and> set cs \<subseteq> set (cn_children pn) \<Longrightarrow> linked nodes'"
proof (induction cs arbitrary: nodes)
  case Nil
  then show ?case by simp
next
  case (Cons child rest)
  define n1 where "n1 = modifyAt child (\<lambda>r. r\<lparr> cn_parent := Some pid \<rparr>) nodes"
  from Cons.prems(1) obtain c0 where c0: "elems nodes child = Some c0"
    and r: "setParents rest pid n1 = Inr nodes'"
    by (auto simp: n1_def split: option.splits)
  from Cons.prems(3) obtain pn where pn: "elems nodes pid = Some pn"
    and cin: "child \<in> set (cn_children pn)" and rin: "set rest \<subseteq> set (cn_children pn)"
    by auto
  have e1: "\<And>k. elems n1 k = (if k = child then Some (c0\<lparr> cn_parent := Some pid \<rparr>)
                                else elems nodes k)"
    by (simp add: n1_def elems_modifyAt c0)
  have ch: "\<And>k n0. elems nodes k = Some n0 \<Longrightarrow>
              \<exists>n. elems n1 k = Some n \<and> cn_children n = cn_children n0"
    using c0 by (auto simp: e1)
  have l1: "linked n1"
    unfolding linked_def
  proof (intro allI impI)
    fix k n p assume k: "elems n1 k = Some n" and pa: "cn_parent n = Some p"
    show "\<exists>pn. elems n1 p = Some pn \<and> k \<in> set (cn_children pn)"
    proof (cases "k = child")
      case True
      then have "n = c0\<lparr> cn_parent := Some pid \<rparr>" using k by (simp add: e1)
      then have "p = pid" using pa by simp
      then show ?thesis using ch[OF pn] cin True by auto
    next
      case False
      then have "elems nodes k = Some n" using k by (simp add: e1)
      with Cons.prems(2) pa obtain pn0 where
        "elems nodes p = Some pn0" "k \<in> set (cn_children pn0)"
        unfolding linked_def by force
      then show ?thesis using ch[of p pn0] by auto
    qed
  qed
  have "\<exists>pn. elems n1 pid = Some pn \<and> set rest \<subseteq> set (cn_children pn)"
    using ch[OF pn] rin by auto
  from Cons.IH[OF r l1 this] show ?case .
qed

lemma linkParents_links:
  "linkParents i nodes = Inr nodes' \<Longrightarrow> linked nodes \<Longrightarrow> selfKeyed nodes \<Longrightarrow> linked nodes'"
proof (induction i nodes rule: linkParents.induct)
  case (1 i nodes)
  show ?case
  proof (cases "i < len nodes")
    case False
    then have "nodes' = nodes" using "1.prems"(1) by (simp add: linkParents.simps)
    then show ?thesis using "1.prems"(2) by simp
  next
    case True
    with "1.prems"(1) obtain node n1 where
      node: "elems nodes (int i) = Some node"
      and sp: "setParents (cn_children node) (cn_id node) nodes = Inr n1"
      and r: "linkParents (Suc i) n1 = Inr nodes'"
      by (subst (asm) linkParents.simps) (auto split: option.splits sum.splits)
    have id: "cn_id node = int i" using "1.prems"(3) node by (simp add: selfKeyed_def)
    have "\<exists>pn. elems nodes (cn_id node) = Some pn \<and> set (cn_children node) \<subseteq> set (cn_children pn)"
      using node id by simp
    from setParents_links[OF sp "1.prems"(2) this] have l1: "linked n1" .
    from setParents_props[OF sp]
    have r1: "\<forall>k. rel_option sameButParent (elems nodes k) (elems n1 k)" by simp
    have k1: "selfKeyed n1"
      unfolding selfKeyed_def
    proof (intro allI impI)
      fix k n assume k: "elems n1 k = Some n"
      with r1[rule_format, of k] obtain n0 where "elems nodes k = Some n0" "sameButParent n0 n"
        by (cases "elems nodes k") auto
      then show "cn_id n = k"
        using "1.prems"(3) sameButParent_fields[of n0 n] by (simp add: selfKeyed_def)
    qed
    from "1.IH"[OF True node sp r l1 k1] show ?thesis .
  qed
qed

lemma buildNodes_props:
  assumes b: "buildNodes stack profile smps tds locs0 = Inr m"
  shows "m_samples m = map (\<lambda>s. s - 1) smps \<and> m_timeDeltas m = tds
     \<and> m_rootPath m = rootPathOf profile \<and> duration m = endTime profile - startTime profile
     \<and> len (m_nodes m) = length (p_nodes profile)"
    and "dom (elems (m_nodes m)) = int ` {0..<len (m_nodes m)}"
    and "\<forall>k n. elems (m_nodes m) k = Some n \<longrightarrow>
           cn_selfTime n = attributed smps tds 1 k \<and> settled (m_nodes m) k
           \<and> atOpt (m_locations m) (cn_locationId n) \<noteq> None"
    and "\<forall>j. 1 \<le> j \<and> j < length tds \<longrightarrow>
           j < length smps \<and> smps ! j - 1 \<in> dom (elems (m_nodes m))"
    and "linked (m_nodes m)"
proof -
  from b obtain n1 l1 n2 n3 n4 l4 where
    f: "fillNodes (p_nodes profile) (newArray (length (p_nodes profile))) locs0 = Inr (n1, l1)"
    and lp: "linkParents 0 n1 = Inr n2"
    and st: "addSelfTimes 1 smps tds n2 = Inr n3"
    and ag: "aggregateAll stack 0 n3 l1 = Inr (n4, l4)"
    and m: "m = \<lparr> m_nodes = n4, m_locations = l4, m_samples = map (\<lambda>id. id - 1) smps,
                  m_timeDeltas = tds, m_rootPath = rootPathOf profile,
                  duration = endTime profile - startTime profile \<rparr>"
    by (auto simp: buildNodes_def split: sum.splits)
  from fillNodes_props[OF f]
  have fin1: "finite (dom (elems n1))" and c1: "card (dom (elems n1)) \<le> length (p_nodes profile)"
    and l1: "length (p_nodes profile) \<le> len n1" and fr1: "freshNodes n1"
    by (simp_all add: newArray_def freshNodes_def)
  from linkParents_props[OF lp]
  have len2: "len n2 = len n1"
    and r2: "\<forall>k. rel_option sameButParent (elems n1 k) (elems n2 k)"
    and d1: "\<forall>j. j < len n1 \<longrightarrow> elems n1 (int j) \<noteq> None" by simp_all
  have "int ` {0..<len n1} \<subseteq> dom (elems n1)" using d1 by (auto simp: dom_def)
  from dom_exact[OF fin1 c1 l1 this]
  have dom1: "dom (elems n1) = int ` {0..<len n1}" and len1: "len n1 = length (p_nodes profile)"
    by simp_all
  have dom2: "dom (elems n2) = dom (elems n1)" using r2 by (rule rel_option_dom)
  have fr2: "freshNodes n2"
    unfolding freshNodes_def
  proof (intro allI impI)
    fix k n assume k: "elems n2 k = Some n"
    with r2[rule_format, of k] obtain n0 where "elems n1 k = Some n0" "sameButParent n0 n"
      by (cases "elems n1 k") auto
    then show "cn_selfTime n = 0 \<and> cn_aggregateTime n = 0"
      using fr1 sameButParent_fields[of n0 n] by (simp add: freshNodes_def)
  qed
  from addSelfTimes_props[OF st]
  have len3: "len n3 = len n2"
    and r3: "\<forall>k. rel_option (\<lambda>a b. b = a\<lparr> cn_selfTime := cn_selfTime a + attributed smps tds 1 k \<rparr>)
               (elems n2 k) (elems n3 k)"
    and d3: "\<forall>j. 1 \<le> j \<and> j < length tds \<longrightarrow> j < length smps \<and> elems n2 (smps ! j - 1) \<noteq> None"
    by simp_all
  have dom3: "dom (elems n3) = dom (elems n2)" using r3 by (rule rel_option_dom)
  have n3: "\<forall>k n. elems n3 k = Some n \<longrightarrow>
      cn_selfTime n = attributed smps tds 1 k \<and> cn_aggregateTime n = 0"
  proof (intro allI impI)
    fix k n assume k: "elems n3 k = Some n"
    with r3[rule_format, of k] obtain n0 where "elems n2 k = Some n0"
      "n = n0\<lparr> cn_selfTime := cn_selfTime n0 + attributed smps tds 1 k \<rparr>"
      by (cases "elems n2 k") auto
    then show "cn_selfTime n = attributed smps tds 1 k \<and> cn_aggregateTime n = 0"
      using fr2 by (simp add: freshNodes_def)
  qed
  then have inv3: "cacheInv n3" by (simp add: cacheInv_def)
  from aggregateAll_props[OF ag inv3]
  have s4: "\<forall>j<len n3. settled n4 (int j)" and e4: "ext n3 n4"
    and ll: "length l4 = length l1"
    and lc: "\<forall>j n. j < len n3 \<and> elems n3 (int j) = Some n \<longrightarrow> atOpt l1 (cn_locationId n) \<noteq> None"
    by simp_all
  have len4: "len n4 = len n3" using e4 by (simp add: ext_def)
  have r4: "\<forall>k. rel_option sameButAggregate (elems n3 k) (elems n4 k)" using e4 by (simp add: ext_def)
  have dom4: "dom (elems n4) = dom (elems n3)" using r4 by (rule rel_option_dom)
  from fillNodes_links[OF f]
  have fl1: "\<forall>k n. elems n1 k = Some n \<longrightarrow> cn_id n = k \<and> cn_parent n = None"
    by (simp add: newArray_def)
  have "linked n1" using fl1 by (simp add: linked_def)
  moreover have "selfKeyed n1" using fl1 by (simp add: selfKeyed_def)
  ultimately have lk2: "linked n2" by (rule linkParents_links[OF lp])
  have "\<forall>k. rel_option (\<lambda>x y. cn_parent y = cn_parent x \<and> cn_children y = cn_children x)
                (elems n2 k) (elems n3 k)"
  proof
    fix k
    show "rel_option (\<lambda>x y. cn_parent y = cn_parent x \<and> cn_children y = cn_children x)
                (elems n2 k) (elems n3 k)"
      by (rule option.rel_mono_strong[OF r3[rule_format, of k]]) simp
  qed
  from linked_rel[OF lk2 this] have lk3: "linked n3" .
  have "\<forall>k. rel_option (\<lambda>x y. cn_parent y = cn_parent x \<and> cn_children y = cn_children x)
                (elems n3 k) (elems n4 k)"
  proof
    fix k
    show "rel_option (\<lambda>x y. cn_parent y = cn_parent x \<and> cn_children y = cn_children x)
                (elems n3 k) (elems n4 k)"
      by (rule option.rel_mono_strong[OF r4[rule_format, of k]])
         (simp add: sameButAggregate_fields)
  qed
  from linked_rel[OF lk3 this] have lk4: "linked n4" .
  have lens: "len n4 = length (p_nodes profile)" using len4 len3 len2 len1 by simp
  have dom: "dom (elems n4) = int ` {0..<len n4}"
    using dom4 dom3 dom2 dom1 len4 len3 len2 by simp
  have nodes: "\<forall>k n. elems n4 k = Some n \<longrightarrow>
           cn_selfTime n = attributed smps tds 1 k \<and> settled n4 k
           \<and> atOpt l4 (cn_locationId n) \<noteq> None"
  proof (intro allI impI)
    fix k n assume k: "elems n4 k = Some n"
    then have "k \<in> int ` {0..<len n4}" using dom by (auto simp: dom_def)
    then obtain j where j: "k = int j" "j < len n3" using len4 by auto
    from k r4[rule_format, of k] obtain n0 where n0: "elems n3 k = Some n0" "sameButAggregate n0 n"
      by (cases "elems n3 k") auto
    have "atOpt l1 (cn_locationId n0) \<noteq> None" using lc j n0 by blast
    then have "atOpt l4 (cn_locationId n) \<noteq> None"
      using sameButAggregate_fields[OF n0(2)] atOpt_length[OF ll] by simp
    then show "cn_selfTime n = attributed smps tds 1 k \<and> settled n4 k
           \<and> atOpt l4 (cn_locationId n) \<noteq> None"
      using n3 n0 sameButAggregate_fields[OF n0(2)] s4 j by simp
  qed
  have smp: "\<forall>j. 1 \<le> j \<and> j < length tds \<longrightarrow> j < length smps \<and> smps ! j - 1 \<in> dom (elems n4)"
    using d3 dom4 dom3 by (auto simp: dom_def)
  show "m_samples m = map (\<lambda>s. s - 1) smps \<and> m_timeDeltas m = tds
     \<and> m_rootPath m = rootPathOf profile \<and> duration m = endTime profile - startTime profile
     \<and> len (m_nodes m) = length (p_nodes profile)"
    using m lens by simp
  show "dom (elems (m_nodes m)) = int ` {0..<len (m_nodes m)}"
    using m dom by simp
  show "\<forall>k n. elems (m_nodes m) k = Some n \<longrightarrow>
           cn_selfTime n = attributed smps tds 1 k \<and> settled (m_nodes m) k
           \<and> atOpt (m_locations m) (cn_locationId n) \<noteq> None"
    using m nodes by simp
  show "\<forall>j. 1 \<le> j \<and> j < length tds \<longrightarrow>
           j < length smps \<and> smps ! j - 1 \<in> dom (elems (m_nodes m))"
    using m smp by simp
  show "linked (m_nodes m)"
    using m lk4 by simp
qed


lemma single_hit:
  assumes "0 \<le> c" and "c < int L"
  shows "(\<Sum>i\<leftarrow>[0..<L]. if c = int i then x else (0::int)) = x"
proof -
  have "(\<Sum>i\<leftarrow>[0..<L]. if c = int i then x else 0) = (\<Sum>i\<in>{0..<L}. if c = int i then x else 0)"
    by (simp add: interv_sum_list_conv_sum_set_nat)
  also have "\<dots> = (\<Sum>i\<in>{0..<L}. if nat c = i then x else 0)"
    by (rule sum.cong) (use assms in auto)
  also have "\<dots> = x"
  proof -
    have "nat c < L" using assms by linarith
    then show ?thesis by (simp add: sum.delta')
  qed
  finally show ?thesis .
qed

lemma sum_indicator:
  "\<forall>j \<in> set js. 0 \<le> c j \<and> c j < int L \<Longrightarrow>
   (\<Sum>i\<leftarrow>[0..<L]. \<Sum>j\<leftarrow>js. if c j = int i then f j else (0::int)) = (\<Sum>j\<leftarrow>js. f j)"
proof (induction js)
  case Nil
  then show ?case by simp
next
  case (Cons j js)
  have "(\<Sum>i\<leftarrow>[0..<L]. \<Sum>j\<leftarrow>j # js. if c j = int i then f j else 0)
      = (\<Sum>i\<leftarrow>[0..<L]. if c j = int i then f j else 0)
        + (\<Sum>i\<leftarrow>[0..<L]. \<Sum>j\<leftarrow>js. if c j = int i then f j else 0)"
    by (simp add: sum_list_addf)
  then show ?case using Cons single_hit[of "c j" L "f j"] by simp
qed

lemma sum_butlast:
  "(\<Sum>j\<leftarrow>[Suc 0..<length tds]. tds ! (j - Suc 0)) = sum_list (butlast (tds :: int list))"
proof -
  have "map (\<lambda>j. tds ! (j - Suc 0)) [Suc 0..<length tds] = butlast tds"
    by (rule nth_equalityI) (auto simp: nth_butlast)
  then show ?thesis by simp
qed

lemma attributed_total:
  assumes "\<forall>j. 1 \<le> j \<and> j < length tds \<longrightarrow> 0 \<le> smps ! j - 1 \<and> smps ! j - 1 < int L"
  shows "(\<Sum>i\<leftarrow>[0..<L]. attributed smps tds 1 (int i)) = sum_list (butlast tds)"
proof -
  have "(\<Sum>i\<leftarrow>[0..<L]. attributed smps tds 1 (int i))
      = (\<Sum>j\<leftarrow>[Suc 0..<length tds]. tds ! (j - Suc 0))"
    unfolding attributed_def One_nat_def
    by (rule sum_indicator) (use assms in auto)
  then show ?thesis by (simp only: sum_butlast)
qed

lemma buildModel_cases:
  assumes "fst (buildModel utils stack profile) = Inr m"
  shows "(p_samples profile = None \<or> p_timeDeltas profile = None)
       \<and> m = \<lparr> m_nodes = newArray 0, m_locations = [],
                m_samples = (case p_samples profile of None \<Rightarrow> [] | Some s \<Rightarrow> s),
                m_timeDeltas = (case p_timeDeltas profile of None \<Rightarrow> [] | Some t \<Rightarrow> t),
                m_rootPath = rootPathOf profile,
                duration = endTime profile - startTime profile \<rparr>
     \<or> (\<exists>smps tds locs0. p_samples profile = Some smps \<and> p_timeDeltas profile = Some tds
          \<and> buildNodes stack (snd (buildModel utils stack profile)) smps tds locs0 = Inr m)"
  using assms
  by (auto simp: buildModel_def split: option.splits prod.splits sum.splits)


section \<open>Self time (step 2 of buildModel)\<close>

definition chainModel :: IProfileModel where
  "chainModel = projr (fst (buildModel plainUtils 10 chainProfile))"

lemma chainModel_built: "fst (buildModel plainUtils 10 chainProfile) = Inr chainModel"
proof -
  have "\<not> isl (fst (buildModel plainUtils 10 chainProfile))" by code_simp
  then show ?thesis by (simp add: chainModel_def)
qed

text \<open>
  C1, as stated, fails on the code: in the scenario of the specification (three nodes,
  1-based samples \<open>[1,2,3,3]\<close>, time deltas \<open>[5,5,5]\<close>) the loop of step 2 runs for
  \<open>i = 1, 2\<close> only, so the last delta is added to no node: the self times sum to 10, the
  deltas to 15, and the node with raw id 3 (index 2) ends with self time 5, not 10.
\<close>

theorem selfTime_sum_counterexample:
  "fst (buildModel plainUtils 10 chainProfile) = Inr chainModel
   \<and> p_samples chainProfile = Some [1, 2, 3, 3] \<and> p_timeDeltas chainProfile = Some [5, 5, 5]
   \<and> m_timeDeltas chainModel = [5, 5, 5]
   \<and> totalSelfTime (m_nodes chainModel) = 10 \<and> sum_list (m_timeDeltas chainModel) = 15
   \<and> selfTimeAt (m_nodes chainModel) 1 = 5 \<and> selfTimeAt (m_nodes chainModel) 2 = 5"
proof -
  have "m_timeDeltas chainModel = [5, 5, 5]" by code_simp
  moreover have "totalSelfTime (m_nodes chainModel) = 10" by code_simp
  moreover have "selfTimeAt (m_nodes chainModel) 1 = 5" by code_simp
  moreover have "selfTimeAt (m_nodes chainModel) 2 = 5" by code_simp
  ultimately show ?thesis
    using chainModel_built by (simp add: chainProfile_def)
qed

text \<open>
  C1, amended: for every model built from a raw profile that has both samples and
  timeDeltas, the self time of the node at index \<open>k\<close> is the sum of \<open>timeDeltas[i-1]\<close> over
  the \<open>i\<close> with \<open>1 \<le> i < timeDeltas.length\<close> and \<open>samples[i] - 1 = k\<close>, and the sum of
  selfTime over all ComputedNodes equals the sum of all entries of timeDeltas but the last
  (every delta but the last is attributed to exactly one node).
\<close>

theorem buildModel_selfTime_attribution:
  assumes "fst (buildModel utils stack profile) = Inr m"
    and "p_samples profile = Some samples" and "p_timeDeltas profile = Some timeDeltas"
  shows "totalSelfTime (m_nodes m) = sum_list (butlast timeDeltas)
     \<and> (\<forall>k node. elems (m_nodes m) k = Some node \<longrightarrow>
           cn_selfTime node = attributed samples timeDeltas 1 k)"
proof -
  from buildModel_cases[OF assms(1)] assms(2,3) obtain locs0 where
    "buildNodes stack (snd (buildModel utils stack profile)) samples timeDeltas locs0 = Inr m"
    by auto
  note p = buildNodes_props[OF this]
  note dom = p(2)
  from p(3) have st: "\<forall>k n. elems (m_nodes m) k = Some n \<longrightarrow> cn_selfTime n = attributed samples timeDeltas 1 k"
    by simp
  from p(4) have sm: "\<forall>j. 1 \<le> j \<and> j < length timeDeltas \<longrightarrow> samples ! j - 1 \<in> dom (elems (m_nodes m))"
    by simp
  have "\<forall>i \<in> set [0..<len (m_nodes m)]. selfTimeAt (m_nodes m) (int i) = attributed samples timeDeltas 1 (int i)"
  proof
    fix i assume "i \<in> set [0..<len (m_nodes m)]"
    then have "int i \<in> dom (elems (m_nodes m))" using dom by simp
    then show "selfTimeAt (m_nodes m) (int i) = attributed samples timeDeltas 1 (int i)"
      using st by (auto simp: selfTimeAt_def)
  qed
  then have "totalSelfTime (m_nodes m) = (\<Sum>i\<leftarrow>[0..<len (m_nodes m)]. attributed samples timeDeltas 1 (int i))"
    unfolding totalSelfTime_def by (metis (mono_tags, lifting) map_eq_conv)
  also have "\<dots> = sum_list (butlast timeDeltas)"
    by (rule attributed_total) (use sm dom in auto)
  finally show ?thesis using st by simp
qed

theorem buildModel_selfTime_attribution_witness:
  "fst (buildModel plainUtils 10 chainProfile) = Inr chainModel
   \<and> p_samples chainProfile = Some [1, 2, 3, 3] \<and> p_timeDeltas chainProfile = Some [5, 5, 5]
   \<and> totalSelfTime (m_nodes chainModel) = sum_list (butlast [5, 5, 5])
   \<and> totalSelfTime (m_nodes chainModel) = 10"
proof -
  have s: "p_samples chainProfile = Some [1, 2, 3, 3]" and t: "p_timeDeltas chainProfile = Some [5, 5, 5]"
    by (simp_all add: chainProfile_def)
  from buildModel_selfTime_attribution[OF chainModel_built s t] chainModel_built s t
  show ?thesis by simp
qed

section \<open>Aggregate time (step 3 of buildModel)\<close>

text \<open>
  Over settled children the loop of \<open>computeAggregateTime\<close> changes nothing, so it returns
  exactly when the call on every child returns.
\<close>

lemma sumChildren_returns:
  assumes "\<forall>c \<in> set cs. settled nodes c"
  shows "(\<not> isl (sumChildren depth cs tot nodes))
         = (\<forall>c \<in> set cs. \<not> isl (computeAggregateTime depth c nodes))"
  using assms
proof (induction cs arbitrary: tot)
  case Nil
  then show ?case by simp
next
  case (Cons c cs)
  show ?case
  proof (cases "computeAggregateTime depth c nodes")
    case (Inl e)
    then show ?thesis by simp
  next
    case (Inr r)
    obtain v n' where r: "r = (v, n')" by (cases r)
    from Cons.prems have sc: "settled nodes c" by simp
    from computeAggregateTime_rerun(1)[OF sc Inr[unfolded r]] have n: "n' = nodes" by simp
    from Cons.prems have "\<forall>x \<in> set cs. settled nodes x" by simp
    from Cons.IH[OF this, of "tot + v"] show ?thesis using Inr r n by simp
  qed
qed

lemma buildModel_settled:
  assumes "fst (buildModel utils stack profile) = Inr m"
    and "elems (m_nodes m) k = Some node"
  shows "settled (m_nodes m) k"
proof -
  from buildModel_cases[OF assms(1)] assms(2) obtain smps tds locs0 where
    "buildNodes stack (snd (buildModel utils stack profile)) smps tds locs0 = Inr m"
    by (auto simp: newArray_def)
  from buildNodes_props(3)[OF this] assms(2) show ?thesis by simp
qed

text \<open>
  A profile in which a subtree is never attributed any time: the chain of the
  specification's scenario under the root, a second child of the root (id 4) with a child
  of its own (id 5), and the first sample, which step 2 never reads, naming node 5.
\<close>

definition idleProfile :: ICpuProfileRaw where
  "idleProfile =
     \<lparr> p_nodes = [rawNode 1 ''a'' [2, 4], rawNode 2 ''b'' [3], rawNode 3 ''c'' [],
                  rawNode 4 ''d'' [5], rawNode 5 ''e'' []],
       startTime = 0, endTime = 15,
       p_samples = Some [5, 2, 3, 3], p_timeDeltas = Some [5, 5, 5],
       vscode = None \<rparr>"

definition idleModel :: IProfileModel where
  "idleModel = projr (fst (buildModel plainUtils 10 idleProfile))"

lemma idleModel_built: "fst (buildModel plainUtils 10 idleProfile) = Inr idleModel"
proof -
  have "\<not> isl (fst (buildModel plainUtils 10 idleProfile))" by code_simp
  then show ?thesis by (simp add: idleModel_def)
qed

definition idleNode :: IComputedNode where
  "idleNode = \<lparr> cn_id = 3, cn_selfTime = 0, cn_aggregateTime = 0, cn_children = [4],
                 cn_parent = Some 0, cn_locationId = Some 3 \<rparr>"

definition chainRoot :: IComputedNode where
  "chainRoot = \<lparr> cn_id = 0, cn_selfTime = 0, cn_aggregateTime = 10, cn_children = [1],
                 cn_parent = None, cn_locationId = Some 0 \<rparr>"

text \<open>
  C3, as stated, fails on the code: the test of the cache is \<open>if (row.aggregateTime)\<close>, which
  a computed aggregate time of 0 does not pass. In the model built from \<open>idleProfile\<close> the
  node at index 3 is computed and holds aggregate time 0; invoking \<open>computeAggregateTime\<close>
  on it again does not return the cached value but calls itself on the child at index 4,
  so with room for a single call it overflows the stack, where the same call on the root of
  the chain model, whose aggregate time is 10, returns the cached value at once.
\<close>

theorem aggregate_cache_counterexample:
  "fst (buildModel plainUtils 10 idleProfile) = Inr idleModel
   \<and> elems (m_nodes idleModel) 3 = Some idleNode
   \<and> cn_aggregateTime idleNode = 0
   \<and> computeAggregateTime 1 3 (m_nodes idleModel) = Inl RangeError
   \<and> computeAggregateTime 2 3 (m_nodes idleModel) = Inr (0, m_nodes idleModel)
   \<and> elems (m_nodes chainModel) 0 = Some chainRoot
   \<and> computeAggregateTime 1 0 (m_nodes chainModel) = Inr (10, m_nodes chainModel)"
proof -
  have e: "elems (m_nodes idleModel) 3 = Some idleNode" by code_simp
  have c: "elems (m_nodes chainModel) 0 = Some chainRoot" by code_simp
  have 1: "computeAggregateTime 1 3 (m_nodes idleModel) = Inl RangeError"
    using e by (simp add: idleNode_def)
  have r: "\<not> isl (computeAggregateTime 2 3 (m_nodes idleModel))" by code_simp
  then obtain v n' where v: "computeAggregateTime 2 3 (m_nodes idleModel) = Inr (v, n')"
    by (cases "computeAggregateTime 2 3 (m_nodes idleModel)") auto
  from computeAggregateTime_rerun(1)[OF buildModel_settled[OF idleModel_built e] v] e
  have 2: "computeAggregateTime 2 3 (m_nodes idleModel) = Inr (0, m_nodes idleModel)"
    using v by (simp add: aggOf_def idleNode_def)
  have 3: "computeAggregateTime 1 0 (m_nodes chainModel) = Inr (10, m_nodes chainModel)"
    using c by (simp add: chainRoot_def)
  have z: "cn_aggregateTime idleNode = 0" by (simp add: idleNode_def)
  show ?thesis by (intro conjI) (fact idleModel_built e z 1 2 c 3)+
qed

text \<open>
  C3, amended: for every ComputedNode of a model returned by \<open>buildModel\<close>, aggregateTime
  equals its selfTime plus the sum of the aggregateTime of its children, which are nodes of
  the model (so a node with no children has aggregateTime equal to selfTime). Invoking
  \<open>computeAggregateTime\<close> again on a node whose aggregateTime is not 0 returns the cached
  value at once, with no nested call, and changes nothing. A node whose aggregateTime is 0
  is not taken from the cache: it is recomputed, the call returning exactly when the call
  on each of its children returns. In both cases, whenever the call returns, it returns the
  aggregateTime the node holds and leaves the array as it is, and it does return once the
  stack admits enough nested calls.
\<close>

theorem buildModel_aggregateTime:
  assumes "fst (buildModel utils stack profile) = Inr m"
    and "elems (m_nodes m) k = Some node"
  shows "cn_aggregateTime node
           = cn_selfTime node + sum_list (map (aggOf (m_nodes m)) (cn_children node))
     \<and> (cn_children node = [] \<longrightarrow> cn_aggregateTime node = cn_selfTime node)
     \<and> (\<forall>c \<in> set (cn_children node). elems (m_nodes m) c \<noteq> None)
     \<and> (cn_aggregateTime node \<noteq> 0 \<longrightarrow>
          (\<forall>depth. computeAggregateTime (Suc depth) k (m_nodes m)
                     = Inr (cn_aggregateTime node, m_nodes m)))
     \<and> (cn_aggregateTime node = 0 \<longrightarrow>
          (\<forall>depth. (\<not> isl (computeAggregateTime (Suc depth) k (m_nodes m)))
                   = (\<forall>c \<in> set (cn_children node).
                         \<not> isl (computeAggregateTime depth c (m_nodes m)))))
     \<and> (\<forall>depth v nodes'. computeAggregateTime depth k (m_nodes m) = Inr (v, nodes')
            \<longrightarrow> v = cn_aggregateTime node \<and> nodes' = m_nodes m)
     \<and> (\<exists>d. \<forall>depth \<ge> d.
            computeAggregateTime depth k (m_nodes m) = Inr (cn_aggregateTime node, m_nodes m))"
proof -
  note s = buildModel_settled[OF assms]
  from s assms(2) have good: "cn_aggregateTime node = aggregateSum (m_nodes m) node"
    and ch: "\<forall>c \<in> set (cn_children node). settled (m_nodes m) c"
    by (auto elim: settled.cases)
  have agg: "aggOf (m_nodes m) k = cn_aggregateTime node"
    using assms(2) by (simp add: aggOf_def)
  have 1: "cn_aggregateTime node
           = cn_selfTime node + sum_list (map (aggOf (m_nodes m)) (cn_children node))"
    using good by (simp add: aggregateSum_def)
  have 2: "\<forall>c \<in> set (cn_children node). elems (m_nodes m) c \<noteq> None"
  proof
    fix c assume "c \<in> set (cn_children node)"
    then have "settled (m_nodes m) c" using ch by blast
    then show "elems (m_nodes m) c \<noteq> None" by (rule settled.cases) simp
  qed
  have 3: "\<forall>depth v nodes'. computeAggregateTime depth k (m_nodes m) = Inr (v, nodes')
            \<longrightarrow> v = cn_aggregateTime node \<and> nodes' = m_nodes m"
    using computeAggregateTime_rerun(1)[OF s] agg by auto
  have 4: "\<exists>d. \<forall>depth \<ge> d.
            computeAggregateTime depth k (m_nodes m) = Inr (cn_aggregateTime node, m_nodes m)"
    using settled_enough_stack[OF s] agg by simp
  have 5: "cn_aggregateTime node \<noteq> 0 \<longrightarrow>
          (\<forall>depth. computeAggregateTime (Suc depth) k (m_nodes m)
                     = Inr (cn_aggregateTime node, m_nodes m))"
    using assms(2) by simp
  have 6: "cn_aggregateTime node = 0 \<longrightarrow>
          (\<forall>depth. (\<not> isl (computeAggregateTime (Suc depth) k (m_nodes m)))
                   = (\<forall>c \<in> set (cn_children node).
                         \<not> isl (computeAggregateTime depth c (m_nodes m))))"
  proof (intro impI allI)
    fix depth
    assume z: "cn_aggregateTime node = 0"
    have "(\<not> isl (computeAggregateTime (Suc depth) k (m_nodes m)))
          = (\<not> isl (sumChildren depth (cn_children node) (cn_selfTime node) (m_nodes m)))"
      using assms(2) z
      by (cases "sumChildren depth (cn_children node) (cn_selfTime node) (m_nodes m)") auto
    also have "\<dots> = (\<forall>c \<in> set (cn_children node).
                        \<not> isl (computeAggregateTime depth c (m_nodes m)))"
      by (rule sumChildren_returns[OF ch])
    finally show "(\<not> isl (computeAggregateTime (Suc depth) k (m_nodes m)))
          = (\<forall>c \<in> set (cn_children node). \<not> isl (computeAggregateTime depth c (m_nodes m)))" .
  qed
  have 7: "cn_children node = [] \<longrightarrow> cn_aggregateTime node = cn_selfTime node"
    using 1 by simp
  show ?thesis by (intro conjI) (fact 1 2 3 4 5 6 7)+
qed

theorem buildModel_aggregateTime_witness:
  "fst (buildModel plainUtils 10 chainProfile) = Inr chainModel
   \<and> elems (m_nodes chainModel) 0 = Some chainRoot
   \<and> cn_aggregateTime chainRoot
        = cn_selfTime chainRoot + sum_list (map (aggOf (m_nodes chainModel)) (cn_children chainRoot))
   \<and> aggOf (m_nodes chainModel) 1 = 10
   \<and> cn_aggregateTime chainRoot \<noteq> 0
   \<and> computeAggregateTime (Suc 0) 0 (m_nodes chainModel)
        = Inr (cn_aggregateTime chainRoot, m_nodes chainModel)
   \<and> computeAggregateTime (Suc 6) 0 (m_nodes chainModel)
        = Inr (cn_aggregateTime chainRoot, m_nodes chainModel)
   \<and> elems (m_nodes idleModel) 3 = Some idleNode
   \<and> cn_aggregateTime idleNode = 0
   \<and> isl (computeAggregateTime (Suc 0) 3 (m_nodes idleModel))"
proof -
  have e: "elems (m_nodes chainModel) 0 = Some chainRoot" by code_simp
  have a: "aggOf (m_nodes chainModel) 1 = 10" by code_simp
  have n: "cn_aggregateTime chainRoot \<noteq> 0" by (simp add: chainRoot_def)
  note t = buildModel_aggregateTime[OF chainModel_built e]
  note s = t[THEN conjunct1]
  note h = t[THEN conjunct2, THEN conjunct2, THEN conjunct2, THEN conjunct1, rule_format, OF n]
  have e3: "elems (m_nodes idleModel) 3 = Some idleNode" by code_simp
  have z: "cn_aggregateTime idleNode = 0" by (simp add: idleNode_def)
  note u = buildModel_aggregateTime[OF idleModel_built e3]
  note r = u[THEN conjunct2, THEN conjunct2, THEN conjunct2, THEN conjunct2, THEN conjunct1,
             rule_format, OF z, of 0]
  have i: "isl (computeAggregateTime (Suc 0) 3 (m_nodes idleModel))"
    using r by (simp add: idleNode_def)
  show ?thesis by (intro conjI) (fact chainModel_built e s a n h e3 z i)+
qed

section \<open>What buildModel writes to the raw profile\<close>

text \<open>
  What a call of \<open>buildModel\<close> may change in the raw profile: a call frame keeps every
  field but \<open>functionName\<close>, which changes only from the empty string to \<open>(anonymous)\<close>; a
  position tick keeps \<open>line\<close> and \<open>ticks\<close>; a node keeps \<open>id\<close> and \<open>children\<close>.
\<close>

definition frameKept :: "CallFrame \<Rightarrow> CallFrame \<Rightarrow> bool" where
  "frameKept a b =
     (b = a\<lparr> functionName := functionName b \<rparr>
      \<and> (functionName b = functionName a
         \<or> functionName a = [] \<and> functionName b = ''(anonymous)''))"

definition tickKept :: "PositionTick \<Rightarrow> PositionTick \<Rightarrow> bool" where
  "tickKept a b = (line b = line a \<and> pt_ticks b = pt_ticks a)"

definition nodeKept :: "IProfileNode \<Rightarrow> IProfileNode \<Rightarrow> bool" where
  "nodeKept a b =
     (pn_id b = pn_id a \<and> pn_children b = pn_children a
      \<and> frameKept (pn_callFrame a) (pn_callFrame b)
      \<and> rel_option (list_all2 tickKept) (positionTicks a) (positionTicks b))"

definition annotationKept :: "IAnnotationLocation \<Rightarrow> IAnnotationLocation \<Rightarrow> bool" where
  "annotationKept a b =
     (al_locations b = al_locations a \<and> frameKept (al_callFrame a) (al_callFrame b))"

definition vscodeKept :: "VsCodeAnnotation \<Rightarrow> VsCodeAnnotation \<Rightarrow> bool" where
  "vscodeKept v w =
     (vs_rootPath w = vs_rootPath v \<and> list_all2 annotationKept (vs_locations v) (vs_locations w))"

definition profileKept :: "ICpuProfileRaw \<Rightarrow> ICpuProfileRaw \<Rightarrow> bool" where
  "profileKept p q =
     (startTime q = startTime p \<and> endTime q = endTime p
      \<and> p_samples q = p_samples p \<and> p_timeDeltas q = p_timeDeltas p
      \<and> list_all2 nodeKept (p_nodes p) (p_nodes q)
      \<and> rel_option vscodeKept (vscode p) (vscode q))"

lemma frameKept_refl [simp]: "frameKept a a"
  by (simp add: frameKept_def)

lemma frameKept_trans: "frameKept a b \<Longrightarrow> frameKept b c \<Longrightarrow> frameKept a c"
  by (cases a; cases b; cases c) (auto simp: frameKept_def)

lemma tickKept_refl [simp]: "tickKept a a"
  by (simp add: tickKept_def)

lemma tickKept_trans: "tickKept a b \<Longrightarrow> tickKept b c \<Longrightarrow> tickKept a c"
  by (simp add: tickKept_def)

lemma nodeKept_refl [simp]: "nodeKept a a"
  by (simp add: nodeKept_def option.rel_refl list.rel_refl)

lemma ticksKept_trans:
  assumes "rel_option (list_all2 tickKept) x y" and "rel_option (list_all2 tickKept) y z"
  shows "rel_option (list_all2 tickKept) x z"
  by (rule rel_option_trans[OF _ assms])
     (rule list_all2_trans[of tickKept tickKept tickKept], rule tickKept_trans)

lemma nodeKept_trans:
  assumes "nodeKept a b" and "nodeKept b c"
  shows "nodeKept a c"
proof -
  have "frameKept (pn_callFrame a) (pn_callFrame c)"
    using assms by (auto simp: nodeKept_def intro: frameKept_trans)
  moreover have "rel_option (list_all2 tickKept) (positionTicks a) (positionTicks c)"
    using assms by (auto simp: nodeKept_def intro: ticksKept_trans)
  ultimately show ?thesis using assms by (simp add: nodeKept_def)
qed

lemma annotationKept_refl [simp]: "annotationKept a a"
  by (simp add: annotationKept_def)

lemma annotationKept_trans: "annotationKept a b \<Longrightarrow> annotationKept b c \<Longrightarrow> annotationKept a c"
  by (auto simp: annotationKept_def intro: frameKept_trans)

lemma vscodeKept_refl [simp]: "vscodeKept a a"
  by (simp add: vscodeKept_def list.rel_refl)

lemma vscodeKept_trans: "vscodeKept a b \<Longrightarrow> vscodeKept b c \<Longrightarrow> vscodeKept a c"
  unfolding vscodeKept_def
  using list_all2_trans[of annotationKept annotationKept annotationKept, OF annotationKept_trans]
  by auto

lemma profileKept_refl [simp]: "profileKept p p"
  by (simp add: profileKept_def list.rel_refl option.rel_refl)

lemma profileKept_trans:
  assumes "profileKept p q" and "profileKept q r"
  shows "profileKept p r"
proof -
  have "list_all2 nodeKept (p_nodes p) (p_nodes r)"
    using assms list_all2_trans[of nodeKept nodeKept nodeKept, OF nodeKept_trans]
    by (auto simp: profileKept_def)
  moreover have "rel_option vscodeKept (vscode p) (vscode r)"
    using assms rel_option_trans[of vscodeKept vscodeKept vscodeKept, OF vscodeKept_trans]
    by (auto simp: profileKept_def)
  ultimately show ?thesis using assms by (simp add: profileKept_def)
qed


lemma markTicks_kept:
  "markTicks utils cf ts tbl = (ts', tbl') \<Longrightarrow> list_all2 tickKept ts ts'"
proof (induction ts arbitrary: tbl ts' tbl')
  case Nil
  then show ?case by simp
next
  case (Cons tick rest)
  define startFrame where "startFrame = cf\<lparr> lineNumber := line tick - 1, columnNumber := 0 \<rparr>"
  define endFrame where "endFrame = cf\<lparr> lineNumber := line tick, columnNumber := 0 \<rparr>"
  obtain startId tbl1 where 1:
    "getLocationIdFor utils (FreshFrame startFrame) startFrame tbl = (startId, tbl1)"
    by (cases "getLocationIdFor utils (FreshFrame startFrame) startFrame tbl")
  obtain endId tbl2 where 2:
    "getLocationIdFor utils (FreshFrame endFrame) endFrame tbl1 = (endId, tbl2)"
    by (cases "getLocationIdFor utils (FreshFrame endFrame) endFrame tbl1")
  obtain rest' tbl3 where 3: "markTicks utils cf rest tbl2 = (rest', tbl3)"
    by (cases "markTicks utils cf rest tbl2")
  have "ts' = tick\<lparr> startLocationId := Some (int startId), endLocationId := Some (int endId) \<rparr> # rest'"
    using Cons.prems 1 2 3 by (simp add: Let_def startFrame_def endFrame_def)
  then show ?case using Cons.IH[OF 3] by (simp add: tickKept_def)
qed

lemma ensureNodes_kept:
  "ensureNodes utils i ns tbl = (ns', tbl') \<Longrightarrow> list_all2 nodeKept ns ns'"
proof (induction ns arbitrary: i tbl ns' tbl')
  case Nil
  then show ?case by simp
next
  case (Cons node rest)
  obtain locId tbl1 where 1:
    "getLocationIdFor utils (NodeFrame i) (pn_callFrame node) tbl = (locId, tbl1)"
    by (cases "getLocationIdFor utils (NodeFrame i) (pn_callFrame node) tbl")
  define marked where "marked = (case positionTicks node of
                None \<Rightarrow> (None, tbl1)
              | Some ts \<Rightarrow>
                  (let (ts', t) = markTicks utils (pn_callFrame node) ts tbl1 in (Some ts', t)))"
  obtain ticks' tbl2 where 2: "marked = (ticks', tbl2)" by (cases marked)
  obtain rest' tbl3 where 3: "ensureNodes utils (Suc i) rest tbl2 = (rest', tbl3)"
    by (cases "ensureNodes utils (Suc i) rest tbl2")
  have t: "rel_option (list_all2 tickKept) (positionTicks node) ticks'"
  proof (cases "positionTicks node")
    case None
    then show ?thesis using 2 by (simp add: marked_def)
  next
    case (Some ts)
    obtain ts' t where m: "markTicks utils (pn_callFrame node) ts tbl1 = (ts', t)"
      by (cases "markTicks utils (pn_callFrame node) ts tbl1")
    then have "ticks' = Some ts'" using 2 Some by (simp add: marked_def)
    then show ?thesis using Some markTicks_kept[OF m] by simp
  qed
  have "ns' = node\<lparr> pn_locationId := Some (int locId), positionTicks := ticks' \<rparr> # rest'"
    using Cons.prems 1 2 3 by (simp add: Let_def marked_def)
  then show ?case using Cons.IH[OF 3] t by (simp add: nodeKept_def)
qed

lemma ensureSourceLocations_kept:
  "profileKept profile (snd (ensureSourceLocations utils profile))"
proof (cases "vscode profile")
  case (Some v)
  then show ?thesis by (simp add: ensureSourceLocations_def)
next
  case None
  obtain nodes' tbl where e: "ensureNodes utils 0 (p_nodes profile)
                   \<lparr> locationIdCounter = 0, locationsByRef = [] \<rparr> = (nodes', tbl)"
    by (cases "ensureNodes utils 0 (p_nodes profile)
                   \<lparr> locationIdCounter = 0, locationsByRef = [] \<rparr>")
  then have "snd (ensureSourceLocations utils profile) = profile\<lparr> p_nodes := nodes' \<rparr>"
    using None by (simp add: ensureSourceLocations_def)
  then show ?thesis using ensureNodes_kept[OF e] None by (simp add: profileKept_def)
qed

lemma ensureSourceLocations_vscode:
  "vscode profile \<noteq> None \<Longrightarrow> snd (ensureSourceLocations utils profile) = profile"
  by (auto simp: ensureSourceLocations_def)

lemma categorize_kept: "frameKept cf (snd (categorize cf src'))"
  by (simp add: categorize_def frameKept_def Let_def)

lemma list_all2_update_one:
  assumes "\<And>x. R x x" and "i < length xs \<Longrightarrow> R (xs ! i) y"
  shows "list_all2 R xs (xs[i := y])"
  unfolding list_all2_conv_all_nth
proof (intro conjI allI impI)
  show "length xs = length (xs[i := y])" by simp
next
  fix k assume "k < length xs"
  then show "R (xs ! k) (xs[i := y] ! k)"
    using assms by (cases "k = i") simp_all
qed

lemma setFrame_kept:
  assumes "frameAt profile r = Some cf" and "frameKept cf cf'"
  shows "profileKept profile (setFrame profile r cf')"
proof (cases r)
  case (NodeFrame i)
  with assms(1) have i: "i < length (p_nodes profile)" and cf: "cf = pn_callFrame (p_nodes profile ! i)"
    by (auto simp: frameAt_def at_Some)
  have "list_all2 nodeKept (p_nodes profile)
          ((p_nodes profile)[i := (p_nodes profile ! i)\<lparr> pn_callFrame := cf' \<rparr>])"
    by (rule list_all2_update_one)
       (use assms(2) cf in \<open>simp_all add: nodeKept_def option.rel_refl list.rel_refl\<close>)
  then show ?thesis
    using NodeFrame by (simp add: setFrame_def profileKept_def option.rel_refl)
next
  case (AnnotationFrame j)
  with assms(1) obtain v where v: "vscode profile = Some v" and j: "j < length (vs_locations v)"
    and cf: "cf = al_callFrame (vs_locations v ! j)"
    by (auto simp: frameAt_def at_Some split: option.splits)
  have "list_all2 annotationKept (vs_locations v)
          ((vs_locations v)[j := (vs_locations v ! j)\<lparr> al_callFrame := cf' \<rparr>])"
    by (rule list_all2_update_one) (use assms(2) cf in \<open>simp_all add: annotationKept_def\<close>)
  then show ?thesis
    using AnnotationFrame v by (simp add: setFrame_def profileKept_def vscodeKept_def list.rel_refl)
next
  case (FreshFrame x)
  then show ?thesis by (simp add: setFrame_def)
qed

lemma buildLocations_kept:
  "profileKept profile (snd (buildLocations utils i ls profile))"
proof (induction ls arbitrary: i profile)
  case Nil
  then show ?case by simp
next
  case (Cons l rest)
  show ?case
  proof (cases "frameAt profile (sle_callFrame l)")
    case None
    then show ?thesis by (simp add: Let_def)
  next
    case (Some cf)
    define src' where "src' = getBestLocation utils profile (sle_locations l)"
    define p1 where "p1 = setFrame profile (sle_callFrame l) (snd (categorize cf src'))"
    have 1: "profileKept profile p1"
      unfolding p1_def by (rule setFrame_kept[OF Some categorize_kept])
    have 2: "profileKept p1 (snd (buildLocations utils (Suc i) rest p1))"
      by (rule Cons.IH)
    have "snd (buildLocations utils i (l # rest) profile)
            = snd (buildLocations utils (Suc i) rest p1)"
      using Some by (simp add: Let_def src'_def p1_def split: prod.splits sum.splits)
    then show ?thesis using profileKept_trans[OF 1 2] by simp
  qed
qed

lemma setFrame_annotation_nodes [simp]:
  "p_nodes (setFrame profile (AnnotationFrame j) cf) = p_nodes profile"
  by (simp add: setFrame_def split: option.splits)

lemma buildLocations_annotation_nodes:
  "\<forall>l \<in> set ls. \<exists>j. sle_callFrame l = AnnotationFrame j \<Longrightarrow>
   p_nodes (snd (buildLocations utils i ls profile)) = p_nodes profile"
proof (induction ls arbitrary: i profile)
  case Nil
  then show ?case by simp
next
  case (Cons l rest)
  then obtain j where j: "sle_callFrame l = AnnotationFrame j" by auto
  show ?case
  proof (cases "frameAt profile (sle_callFrame l)")
    case None
    then show ?thesis by (simp add: Let_def)
  next
    case (Some cf)
    define src' where "src' = getBestLocation utils profile (sle_locations l)"
    define p1 where "p1 = setFrame profile (sle_callFrame l) (snd (categorize cf src'))"
    have "snd (buildLocations utils i (l # rest) profile)
            = snd (buildLocations utils (Suc i) rest p1)"
      using Some by (simp add: Let_def src'_def p1_def split: prod.splits sum.splits)
    moreover have "p_nodes (snd (buildLocations utils (Suc i) rest p1)) = p_nodes p1"
      by (rule Cons.IH) (use Cons.prems in simp)
    moreover have "p_nodes p1 = p_nodes profile" by (simp add: p1_def j)
    ultimately show ?thesis by simp
  qed
qed

lemma snd_buildModel:
  "snd (buildModel utils stack profile) =
     (if p_samples profile = None \<or> p_timeDeltas profile = None then profile
      else snd (buildLocations utils 0 (fst (ensureSourceLocations utils profile))
                  (snd (ensureSourceLocations utils profile))))"
  by (auto simp: buildModel_def split: option.splits prod.splits sum.splits)


lemma ensureSourceLocations_annotation_refs:
  "vscode profile = Some v \<Longrightarrow>
   \<forall>l \<in> set (fst (ensureSourceLocations utils profile)). \<exists>j. sle_callFrame l = AnnotationFrame j"
  by (auto simp: ensureSourceLocations_def)

text \<open>
  A profile with one anonymous function and a position tick, and a profile that carries
  the annotation of the recorder (a root path and precomputed locations).
\<close>

definition anonymousProfile :: ICpuProfileRaw where
  "anonymousProfile =
     \<lparr> p_nodes = [(rawNode 1 [] [])\<lparr> positionTicks :=
                      Some [\<lparr> line = 3, pt_ticks = 2, startLocationId = None,
                              endLocationId = None \<rparr>] \<rparr>],
       startTime = 0, endTime = 10,
       p_samples = Some [1, 1], p_timeDeltas = Some [5, 5],
       vscode = None \<rparr>"

definition annotatedProfile :: ICpuProfileRaw where
  "annotatedProfile =
     \<lparr> p_nodes = [(rawNode 1 ''a'' [2])\<lparr> pn_locationId := Some 0 \<rparr>,
                  (rawNode 2 [] [])\<lparr> pn_locationId := Some 1 \<rparr>],
       startTime = 0, endTime = 10,
       p_samples = Some [1, 2, 2], p_timeDeltas = Some [5, 5, 5],
       vscode = Some \<lparr> vs_rootPath = Some ''/work'',
                        vs_locations =
                          [\<lparr> al_callFrame = frameNamed ''a'', al_locations = [] \<rparr>,
                           \<lparr> al_callFrame = frameNamed [], al_locations = [] \<rparr>] \<rparr> \<rparr>"

text \<open>
  What \<open>ensureSourceLocations\<close> assigns when the profile has no annotation: a location id
  to every node, and a start and an end location id to every position tick. The writes of
  \<open>categorize\<close> that follow touch call frames only.
\<close>

definition tickLocated :: "PositionTick \<Rightarrow> bool" where
  "tickLocated t = (startLocationId t \<noteq> None \<and> endLocationId t \<noteq> None)"

definition nodeLocated :: "IProfileNode \<Rightarrow> bool" where
  "nodeLocated n =
     (pn_locationId n \<noteq> None
      \<and> list_all tickLocated (case positionTicks n of None \<Rightarrow> [] | Some ts \<Rightarrow> ts))"

lemma markTicks_located:
  "markTicks utils cf ts tbl = (ts', tbl') \<Longrightarrow> list_all tickLocated ts'"
proof (induction ts arbitrary: tbl ts' tbl')
  case Nil
  then show ?case by simp
next
  case (Cons tick rest)
  define startFrame where "startFrame = cf\<lparr> lineNumber := line tick - 1, columnNumber := 0 \<rparr>"
  define endFrame where "endFrame = cf\<lparr> lineNumber := line tick, columnNumber := 0 \<rparr>"
  obtain startId tbl1 where 1:
    "getLocationIdFor utils (FreshFrame startFrame) startFrame tbl = (startId, tbl1)"
    by (cases "getLocationIdFor utils (FreshFrame startFrame) startFrame tbl")
  obtain endId tbl2 where 2:
    "getLocationIdFor utils (FreshFrame endFrame) endFrame tbl1 = (endId, tbl2)"
    by (cases "getLocationIdFor utils (FreshFrame endFrame) endFrame tbl1")
  obtain rest' tbl3 where 3: "markTicks utils cf rest tbl2 = (rest', tbl3)"
    by (cases "markTicks utils cf rest tbl2")
  have "ts' = tick\<lparr> startLocationId := Some (int startId), endLocationId := Some (int endId) \<rparr> # rest'"
    using Cons.prems 1 2 3 by (simp add: Let_def startFrame_def endFrame_def)
  then show ?case using Cons.IH[OF 3] by (simp add: tickLocated_def)
qed

lemma ensureNodes_located:
  "ensureNodes utils i ns tbl = (ns', tbl') \<Longrightarrow> list_all nodeLocated ns'"
proof (induction ns arbitrary: i tbl ns' tbl')
  case Nil
  then show ?case by simp
next
  case (Cons node rest)
  obtain locId tbl1 where 1:
    "getLocationIdFor utils (NodeFrame i) (pn_callFrame node) tbl = (locId, tbl1)"
    by (cases "getLocationIdFor utils (NodeFrame i) (pn_callFrame node) tbl")
  define marked where "marked = (case positionTicks node of
                None \<Rightarrow> (None, tbl1)
              | Some ts \<Rightarrow>
                  (let (ts', t) = markTicks utils (pn_callFrame node) ts tbl1 in (Some ts', t)))"
  obtain ticks' tbl2 where 2: "marked = (ticks', tbl2)" by (cases marked)
  obtain rest' tbl3 where 3: "ensureNodes utils (Suc i) rest tbl2 = (rest', tbl3)"
    by (cases "ensureNodes utils (Suc i) rest tbl2")
  have t: "list_all tickLocated (case ticks' of None \<Rightarrow> [] | Some ts \<Rightarrow> ts)"
  proof (cases "positionTicks node")
    case None
    then show ?thesis using 2 by (auto simp: marked_def)
  next
    case (Some ts)
    obtain ts' t where m: "markTicks utils (pn_callFrame node) ts tbl1 = (ts', t)"
      by (cases "markTicks utils (pn_callFrame node) ts tbl1")
    then have "ticks' = Some ts'" using 2 Some by (simp add: marked_def)
    then show ?thesis using markTicks_located[OF m] by simp
  qed
  have "ns' = node\<lparr> pn_locationId := Some (int locId), positionTicks := ticks' \<rparr> # rest'"
    using Cons.prems 1 2 3 by (simp add: Let_def marked_def)
  then show ?case using Cons.IH[OF 3] t by (simp add: nodeLocated_def)
qed

lemma ensureSourceLocations_located:
  "vscode profile = None \<Longrightarrow>
   list_all nodeLocated (p_nodes (snd (ensureSourceLocations utils profile)))"
proof -
  assume n: "vscode profile = None"
  obtain nodes' tbl where e: "ensureNodes utils 0 (p_nodes profile)
                   \<lparr> locationIdCounter = 0, locationsByRef = [] \<rparr> = (nodes', tbl)"
    by (cases "ensureNodes utils 0 (p_nodes profile)
                   \<lparr> locationIdCounter = 0, locationsByRef = [] \<rparr>")
  then have "snd (ensureSourceLocations utils profile) = profile\<lparr> p_nodes := nodes' \<rparr>"
    using n by (simp add: ensureSourceLocations_def)
  then show ?thesis using ensureNodes_located[OF e] by simp
qed

lemma list_all_update: "list_all P xs \<Longrightarrow> P y \<Longrightarrow> list_all P (xs[i := y])"
  unfolding list_all_iff using set_update_subset_insert[of xs i y] by auto

lemma setFrame_located:
  assumes "list_all nodeLocated (p_nodes profile)"
  shows "list_all nodeLocated (p_nodes (setFrame profile r cf))"
proof (cases r)
  case (NodeFrame i)
  show ?thesis
  proof (cases "i < length (p_nodes profile)")
    case True
    have "nodeLocated (p_nodes profile ! i)"
      using assms True by (simp add: list_all_length)
    then have "nodeLocated ((p_nodes profile ! i)\<lparr> pn_callFrame := cf \<rparr>)"
      by (simp add: nodeLocated_def)
    from list_all_update[OF assms this, of i] show ?thesis
      using NodeFrame by (simp add: setFrame_def)
  next
    case False
    then have "(p_nodes profile)[i := (p_nodes profile ! i)\<lparr> pn_callFrame := cf \<rparr>]
                 = p_nodes profile"
      by (intro list_update_beyond) simp
    then show ?thesis using assms NodeFrame by (simp add: setFrame_def)
  qed
next
  case (AnnotationFrame j)
  then show ?thesis using assms by simp
next
  case (FreshFrame x)
  then show ?thesis using assms by (simp add: setFrame_def)
qed

lemma buildLocations_located:
  "list_all nodeLocated (p_nodes profile) \<Longrightarrow>
   list_all nodeLocated (p_nodes (snd (buildLocations utils i ls profile)))"
proof (induction ls arbitrary: i profile)
  case Nil
  then show ?case by simp
next
  case (Cons l rest)
  show ?case
  proof (cases "frameAt profile (sle_callFrame l)")
    case None
    then show ?thesis using Cons.prems by (simp add: Let_def)
  next
    case (Some cf)
    define src' where "src' = getBestLocation utils profile (sle_locations l)"
    define p1 where "p1 = setFrame profile (sle_callFrame l) (snd (categorize cf src'))"
    have 1: "list_all nodeLocated (p_nodes p1)"
      unfolding p1_def by (rule setFrame_located[OF Cons.prems])
    have "snd (buildLocations utils i (l # rest) profile)
            = snd (buildLocations utils (Suc i) rest p1)"
      using Some by (simp add: Let_def src'_def p1_def split: prod.splits sum.splits)
    then show ?thesis using Cons.IH[OF 1] by simp
  qed
qed

lemma buildModel_kept: "profileKept profile (snd (buildModel utils stack profile))"
proof -
  define p1 where "p1 = snd (ensureSourceLocations utils profile)"
  define ls where "ls = fst (ensureSourceLocations utils profile)"
  have 1: "profileKept profile p1"
    unfolding p1_def by (rule ensureSourceLocations_kept)
  have 2: "profileKept p1 (snd (buildLocations utils 0 ls p1))"
    by (rule buildLocations_kept)
  show ?thesis
    using profileKept_trans[OF 1 2] by (simp add: snd_buildModel p1_def ls_def)
qed

text \<open>
  C6, as stated, fails on the code. Without the recorder's annotation,
  \<open>ensureSourceLocations\<close> assigns the \<open>locationId\<close> of every node and the
  \<open>startLocationId\<close> and \<open>endLocationId\<close> of every position tick, and \<open>categorize\<close> replaces an
  empty \<open>functionName\<close> by \<open>(anonymous)\<close> in the call frame a location shares with its node.
\<close>

theorem profile_unchanged_counterexample:
  "map pn_locationId (p_nodes chainProfile) = [None, None, None]
   \<and> map pn_locationId (p_nodes (snd (buildModel plainUtils 10 chainProfile)))
       = [Some 0, Some 1, Some 2]
   \<and> map (\<lambda>n. functionName (pn_callFrame n)) (p_nodes anonymousProfile) = [[]]
   \<and> map (\<lambda>n. functionName (pn_callFrame n)) (p_nodes (snd (buildModel plainUtils 10 anonymousProfile)))
       = [''(anonymous)'']
   \<and> map positionTicks (p_nodes (snd (buildModel plainUtils 10 anonymousProfile)))
       = [Some [\<lparr> line = 3, pt_ticks = 2, startLocationId = Some 1, endLocationId = Some 2 \<rparr>]]"
proof -
  have "map pn_locationId (p_nodes chainProfile) = [None, None, None]" by code_simp
  moreover have "map pn_locationId (p_nodes (snd (buildModel plainUtils 10 chainProfile)))
       = [Some 0, Some 1, Some 2]" by code_simp
  moreover have "map (\<lambda>n. functionName (pn_callFrame n)) (p_nodes anonymousProfile) = [[]]"
    by code_simp
  moreover have "map (\<lambda>n. functionName (pn_callFrame n))
        (p_nodes (snd (buildModel plainUtils 10 anonymousProfile))) = [''(anonymous)'']"
    by code_simp
  moreover have "map positionTicks (p_nodes (snd (buildModel plainUtils 10 anonymousProfile)))
       = [Some [\<lparr> line = 3, pt_ticks = 2, startLocationId = Some 1, endLocationId = Some 2 \<rparr>]]"
    by code_simp
  ultimately show ?thesis by blast
qed

text \<open>
  C6, amended: \<open>buildModel\<close> leaves the samples, the time deltas, the start and end time
  and the root path of the raw profile, the id and children of every node, the line and
  ticks of every position tick, the source locations of every annotation and every field of
  a call frame but \<open>functionName\<close> exactly as supplied, and it changes a \<open>functionName\<close> only
  from the empty string to \<open>(anonymous)\<close>. When samples or timeDeltas is absent the whole
  record is unchanged, and when the profile carries the \<open>$vscode\<close> annotation its nodes are
  unchanged. When samples and timeDeltas are both present and the profile carries no
  \<open>$vscode\<close> annotation, the call assigns the \<open>locationId\<close> of every node and the
  \<open>startLocationId\<close> and \<open>endLocationId\<close> of every position tick: after the call each of
  them is defined.
\<close>

theorem buildModel_profile_effect:
  "profileKept profile (snd (buildModel utils stack profile))
   \<and> (p_samples profile = None \<or> p_timeDeltas profile = None \<longrightarrow>
        snd (buildModel utils stack profile) = profile)
   \<and> (vscode profile \<noteq> None \<longrightarrow>
        p_nodes (snd (buildModel utils stack profile)) = p_nodes profile)
   \<and> (vscode profile = None \<and> p_samples profile \<noteq> None \<and> p_timeDeltas profile \<noteq> None \<longrightarrow>
        list_all nodeLocated (p_nodes (snd (buildModel utils stack profile))))"
proof -
  define p1 where "p1 = snd (ensureSourceLocations utils profile)"
  define ls where "ls = fst (ensureSourceLocations utils profile)"
  have k: "profileKept profile (snd (buildModel utils stack profile))"
    by (rule buildModel_kept)
  have s: "p_samples profile = None \<or> p_timeDeltas profile = None \<longrightarrow>
        snd (buildModel utils stack profile) = profile"
    by (simp add: snd_buildModel)
  have v: "vscode profile \<noteq> None \<longrightarrow>
        p_nodes (snd (buildModel utils stack profile)) = p_nodes profile"
  proof
    assume a: "vscode profile \<noteq> None"
    then obtain v where v: "vscode profile = Some v" by auto
    have "p_nodes (snd (buildLocations utils 0 ls p1)) = p_nodes p1"
      unfolding ls_def
      by (rule buildLocations_annotation_nodes) (rule ensureSourceLocations_annotation_refs[OF v])
    moreover have "p1 = profile" using a by (simp add: p1_def ensureSourceLocations_vscode)
    ultimately show "p_nodes (snd (buildModel utils stack profile)) = p_nodes profile"
      by (simp add: snd_buildModel p1_def ls_def)
  qed
  have l: "vscode profile = None \<and> p_samples profile \<noteq> None \<and> p_timeDeltas profile \<noteq> None \<longrightarrow>
        list_all nodeLocated (p_nodes (snd (buildModel utils stack profile)))"
  proof
    assume a: "vscode profile = None \<and> p_samples profile \<noteq> None \<and> p_timeDeltas profile \<noteq> None"
    then have "list_all nodeLocated (p_nodes p1)"
      unfolding p1_def by (simp add: ensureSourceLocations_located)
    then have "list_all nodeLocated (p_nodes (snd (buildLocations utils 0 ls p1)))"
      by (rule buildLocations_located)
    moreover have "\<not> (p_samples profile = None \<or> p_timeDeltas profile = None)"
      using a by simp
    ultimately show "list_all nodeLocated (p_nodes (snd (buildModel utils stack profile)))"
      by (simp only: snd_buildModel p1_def ls_def if_False)
  qed
  show ?thesis by (intro conjI) (fact k s v l)+
qed

theorem buildModel_profile_effect_witness:
  "profileKept chainProfile (snd (buildModel plainUtils 10 chainProfile))
   \<and> p_samples (snd (buildModel plainUtils 10 chainProfile)) = Some [1, 2, 3, 3]
   \<and> (p_samples abortedProfile = None \<or> p_timeDeltas abortedProfile = None)
   \<and> snd (buildModel plainUtils 10 abortedProfile) = abortedProfile
   \<and> vscode annotatedProfile \<noteq> None
   \<and> p_nodes (snd (buildModel plainUtils 10 annotatedProfile)) = p_nodes annotatedProfile
   \<and> map (\<lambda>a. functionName (al_callFrame a))
        (vs_locations (the (vscode (snd (buildModel plainUtils 10 annotatedProfile)))))
       = [''a'', ''(anonymous)'']
   \<and> vscode anonymousProfile = None \<and> p_samples anonymousProfile \<noteq> None
   \<and> p_timeDeltas anonymousProfile \<noteq> None
   \<and> list_all nodeLocated (p_nodes (snd (buildModel plainUtils 10 anonymousProfile)))
   \<and> \<not> list_all nodeLocated (p_nodes anonymousProfile)"
proof -
  note c = buildModel_profile_effect[of chainProfile plainUtils 10, THEN conjunct1]
  note a = buildModel_profile_effect[of abortedProfile plainUtils 10,
             THEN conjunct2, THEN conjunct1, rule_format]
  note n = buildModel_profile_effect[of annotatedProfile plainUtils 10,
             THEN conjunct2, THEN conjunct2, THEN conjunct1, rule_format]
  note m = buildModel_profile_effect[of anonymousProfile plainUtils 10,
             THEN conjunct2, THEN conjunct2, THEN conjunct2, rule_format]
  have 1: "p_samples abortedProfile = None \<or> p_timeDeltas abortedProfile = None"
    by (simp add: abortedProfile_def)
  have 2: "vscode annotatedProfile \<noteq> None" by (simp add: annotatedProfile_def)
  have 3: "p_samples (snd (buildModel plainUtils 10 chainProfile)) = Some [1, 2, 3, 3]"
    using c by (simp add: profileKept_def chainProfile_def)
  have 4: "map (\<lambda>a. functionName (al_callFrame a))
        (vs_locations (the (vscode (snd (buildModel plainUtils 10 annotatedProfile)))))
       = [''a'', ''(anonymous)'']" by code_simp
  have 5: "vscode anonymousProfile = None" and 6: "p_samples anonymousProfile \<noteq> None"
    and 7: "p_timeDeltas anonymousProfile \<noteq> None"
    by (simp_all add: anonymousProfile_def)
  have 8: "\<not> list_all nodeLocated (p_nodes anonymousProfile)"
    by (simp add: anonymousProfile_def nodeLocated_def rawNode_def)
  note a' = a[OF 1]
  note n' = n[OF 2]
  note m' = m[OF conjI[OF 5 conjI[OF 6 7]]]
  show ?thesis by (intro conjI) (fact c 3 1 a' 2 n' 4 5 6 7 m' 8)+
qed

section \<open>Samples and time deltas of the model\<close>














section \<open>The bottom-up graph (createBottomUpGraph)\<close>

text \<open>
  A \<open>BottomUpNode\<close> is a mutable object that holds a reference to its parent, and
  \<open>addNode\<close> writes to the node and to every ancestor. The objects live in a store, a list
  in which the address of an object is its index; \<open>new BottomUpNode(...)\<close> appends to it.
  The \<open>children\<close> map keeps its entries in insertion order; its keys are the
  \<open>locationId\<close> of computed nodes (\<open>undefined\<close> is a key like any other).
\<close>

record BottomUpNode =
  bu_location :: "ILocation option"
  bu_parent :: "nat option"
  bu_children :: "(int option \<times> nat) list"
  bu_aggregateTime :: int
  bu_selfTime :: int
  bu_ticks :: int

definition newBottomUpNode :: "ILocation option \<Rightarrow> nat option \<Rightarrow> BottomUpNode" where
  "newBottomUpNode location parent =
     \<lparr> bu_location = location, bu_parent = parent, bu_children = [],
       bu_aggregateTime = 0, bu_selfTime = 0, bu_ticks = 0 \<rparr>"

definition objectAt :: "BottomUpNode list \<Rightarrow> nat \<Rightarrow> BottomUpNode option" where
  "objectAt store a = (if a < length store then Some (store ! a) else None)"

text \<open>
  \<open>addNode\<close> and \<open>processNode\<close> are recursive; as for \<open>computeAggregateTime\<close>, the first
  argument is the number of nested calls the stack still admits.
\<close>

fun addNode ::
    "nat \<Rightarrow> nat \<Rightarrow> IComputedNode \<Rightarrow> BottomUpNode list \<Rightarrow> error + BottomUpNode list" where
  "addNode 0 this node store = Inl RangeError"
| "addNode (Suc depth) this node store =
     (case objectAt store this of
        None \<Rightarrow> Inl TypeError
      | Some obj \<Rightarrow>
          (let store1 = store[this := obj\<lparr> bu_selfTime := bu_selfTime obj + cn_selfTime node,
                                          bu_aggregateTime :=
                                            bu_aggregateTime obj + cn_aggregateTime node \<rparr>]
           in case bu_parent obj of
                None \<Rightarrow> Inr store1
              | Some p \<Rightarrow> addNode depth p node store1))"

fun processNode ::
    "nat \<Rightarrow> nat \<Rightarrow> IComputedNode option \<Rightarrow> IProfileModel \<Rightarrow> BottomUpNode list
      \<Rightarrow> error + BottomUpNode list" where
  "processNode 0 aggregate node model store = Inl RangeError"
| "processNode (Suc depth) aggregate None model store = Inl TypeError"
| "processNode (Suc depth) aggregate (Some node) model store =
     (case objectAt store aggregate of
        None \<Rightarrow> Inl TypeError
      | Some agg \<Rightarrow>
          (let (child, store1) =
                 (case map_of (bu_children agg) (cn_locationId node) of
                    Some c \<Rightarrow> (c, store)
                  | None \<Rightarrow>
                      (length store,
                       (store @ [newBottomUpNode
                                   (atOpt (m_locations model) (cn_locationId node))
                                   (Some aggregate)])
                         [aggregate := agg\<lparr> bu_children :=
                            bu_children agg @ [(cn_locationId node, length store)] \<rparr>]))
           in case addNode depth child node store1 of
                Inl e \<Rightarrow> Inl e
              | Inr store2 \<Rightarrow>
                  (case cn_parent node of
                     None \<Rightarrow> Inr store2
                   | Some p \<Rightarrow>
                       if p = 0 then Inr store2
                       else processNode depth child (elems (m_nodes model) p) model store2)))"

fun groupByLocation :: "IProfileModel \<Rightarrow> nat list \<Rightarrow> error + unit" where
  \<comment> \<open>the first loop: \<open>byLocation[node.locationId].push(node)\<close> needs the node and the slot\<close>
  "groupByLocation model [] = Inr ()"
| "groupByLocation model (i # rest) =
     (case elems (m_nodes model) (int i) of
        None \<Rightarrow> Inl TypeError
      | Some node \<Rightarrow>
          (case atOpt (m_locations model) (cn_locationId node) of
             None \<Rightarrow> Inl TypeError
           | Some _ \<Rightarrow> groupByLocation model rest))"

fun processLeaves ::
    "nat \<Rightarrow> IProfileModel \<Rightarrow> nat list \<Rightarrow> BottomUpNode list \<Rightarrow> error + BottomUpNode list" where
  \<comment> \<open>the second loop; the root is the object at address 0\<close>
  "processLeaves stack model [] store = Inr store"
| "processLeaves stack model (i # rest) store =
     (case elems (m_nodes model) (int i) of
        None \<Rightarrow> Inl TypeError
      | Some node \<Rightarrow>
          if cn_children node = [] then
            (case processNode stack 0 (Some node) model store of
               Inl e \<Rightarrow> Inl e
             | Inr store' \<Rightarrow> processLeaves stack model rest store')
          else processLeaves stack model rest store)"

definition rootLocation :: ILocation where
  "rootLocation =
     \<lparr> loc_id = - 1, loc_selfTime = 0, loc_aggregateTime = 0, loc_ticks = 0,
       category = System,
       callFrame = \<lparr> functionName = ''(root)'', scriptId = ''0'', url = [],
                     lineNumber = - 1, columnNumber = - 1 \<rparr>,
       src = None \<rparr>"

text \<open>
  \<open>createBottomUpGraph\<close> returns the root; the model returns the store, in which the root
  is the object at address 0.
\<close>

definition createBottomUpGraph :: "nat \<Rightarrow> IProfileModel \<Rightarrow> error + BottomUpNode list" where
  "createBottomUpGraph stack model =
     (case groupByLocation model [0..<len (m_nodes model)] of
        Inl e \<Rightarrow> Inl e
      | Inr _ \<Rightarrow>
          processLeaves stack model [0..<len (m_nodes model)]
            [newBottomUpNode (Some rootLocation) None])"

definition bottomUpRoot :: "error + BottomUpNode list \<Rightarrow> BottomUpNode option" where
  "bottomUpRoot r = (case r of Inl _ \<Rightarrow> None | Inr store \<Rightarrow> objectAt store 0)"

text \<open>
  The computed nodes \<open>processNode\<close> visits from a node: the node, then its parent while the
  parent id is truthy (defined and not 0), as long as the stack admits the nested calls.
\<close>

fun parentChain :: "nat \<Rightarrow> IProfileModel \<Rightarrow> IComputedNode \<Rightarrow> IComputedNode list" where
  "parentChain 0 model node = []"
| "parentChain (Suc depth) model node =
     node # (case cn_parent node of
               None \<Rightarrow> []
             | Some p \<Rightarrow>
                 if p = 0 then []
                 else (case elems (m_nodes model) p of
                         None \<Rightarrow> []
                       | Some parent \<Rightarrow> parentChain depth model parent))"

definition leafChain :: "nat \<Rightarrow> IProfileModel \<Rightarrow> nat \<Rightarrow> IComputedNode list" where
  \<comment> \<open>the chain of the node at index \<open>i\<close> when it is a leaf, and nothing otherwise\<close>
  "leafChain stack model i =
     (case elems (m_nodes model) (int i) of
        None \<Rightarrow> []
      | Some node \<Rightarrow> if cn_children node = [] then parentChain stack model node else [])"

definition sameLinks :: "BottomUpNode list \<Rightarrow> BottomUpNode list \<Rightarrow> bool" where
  "sameLinks s t =
     (length t = length s
      \<and> (\<forall>a<length s. bu_parent (t ! a) = bu_parent (s ! a)
                       \<and> bu_children (t ! a) = bu_children (s ! a)))"

definition wfStore :: "BottomUpNode list \<Rightarrow> bool" where
  "wfStore store =
     (store \<noteq> []
      \<and> (\<forall>a<length store. case bu_parent (store ! a) of None \<Rightarrow> a = 0 | Some p \<Rightarrow> p < a)
      \<and> (\<forall>a<length store. \<forall>kc \<in> set (bu_children (store ! a)). snd kc < length store))"

lemma sameLinks_refl [simp]: "sameLinks s s"
  by (simp add: sameLinks_def)

lemma sameLinks_trans: "sameLinks s t \<Longrightarrow> sameLinks t u \<Longrightarrow> sameLinks s u"
  by (simp add: sameLinks_def)

lemma wfStore_sameLinks: "wfStore s \<Longrightarrow> sameLinks s t \<Longrightarrow> wfStore t"
  unfolding wfStore_def sameLinks_def by (cases s; cases t) auto

lemma addNode_root:
  "wfStore store \<Longrightarrow> this < length store \<Longrightarrow> addNode depth this node store = Inr store' \<Longrightarrow>
   sameLinks store store'
   \<and> bu_aggregateTime (store' ! 0) = bu_aggregateTime (store ! 0) + cn_aggregateTime node
   \<and> bu_selfTime (store' ! 0) = bu_selfTime (store ! 0) + cn_selfTime node"
proof (induction depth arbitrary: this store)
  case 0
  then show ?case by simp
next
  case (Suc depth)
  define obj where "obj = store ! this"
  define store1 where "store1 = store[this := obj\<lparr> bu_selfTime := bu_selfTime obj + cn_selfTime node,
                                          bu_aggregateTime :=
                                            bu_aggregateTime obj + cn_aggregateTime node \<rparr>]"
  have o: "objectAt store this = Some obj"
    using Suc.prems(2) by (simp add: objectAt_def obj_def)
  have l1: "sameLinks store store1"
    using Suc.prems(2) by (auto simp: sameLinks_def store1_def obj_def nth_list_update)
  have w1: "wfStore store1" by (rule wfStore_sameLinks[OF Suc.prems(1) l1])
  show ?case
  proof (cases "bu_parent obj")
    case None
    then have "this = 0"
      using Suc.prems(1,2) by (auto simp: wfStore_def obj_def split: option.splits)
    moreover have "store' = store1"
      using Suc.prems(3) o None by (simp add: store1_def Let_def)
    ultimately show ?thesis
      using l1 Suc.prems(2) by (simp add: store1_def obj_def)
  next
    case (Some p)
    then have p: "p < this"
      using Suc.prems(1,2) by (auto simp: wfStore_def obj_def split: option.splits)
    have r: "addNode depth p node store1 = Inr store'"
      using Suc.prems(3) o Some by (simp add: store1_def Let_def)
    have pl: "p < length store1" using p Suc.prems(2) by (simp add: store1_def)
    from Suc.IH[OF w1 pl r] have l2: "sameLinks store1 store'"
      and a: "bu_aggregateTime (store' ! 0) = bu_aggregateTime (store1 ! 0) + cn_aggregateTime node"
      and b: "bu_selfTime (store' ! 0) = bu_selfTime (store1 ! 0) + cn_selfTime node"
      by simp_all
    have "store1 ! 0 = store ! 0" using p by (simp add: store1_def)
    then show ?thesis using sameLinks_trans[OF l1 l2] a b by simp
  qed
qed

lemma map_of_snd: "map_of xs k = Some c \<Longrightarrow> (k, c) \<in> set xs"
  by (rule map_of_SomeD)

lemma processNode_root:
  "wfStore store \<Longrightarrow> aggregate < length store \<Longrightarrow>
   processNode depth aggregate (Some node) model store = Inr store' \<Longrightarrow>
   wfStore store'
   \<and> bu_aggregateTime (store' ! 0)
       = bu_aggregateTime (store ! 0) + sum_list (map cn_aggregateTime (parentChain depth model node))
   \<and> bu_selfTime (store' ! 0)
       = bu_selfTime (store ! 0) + sum_list (map cn_selfTime (parentChain depth model node))"
proof (induction depth arbitrary: aggregate node store)
  case 0
  then show ?case by simp
next
  case (Suc depth)
  define agg where "agg = store ! aggregate"
  have o: "objectAt store aggregate = Some agg"
    using Suc.prems(2) by (simp add: objectAt_def agg_def)
  define found where "found = map_of (bu_children agg) (cn_locationId node)"
  define child where "child = (case found of Some c \<Rightarrow> c | None \<Rightarrow> length store)"
  define store1 where "store1 = (case found of
       Some c \<Rightarrow> store
     | None \<Rightarrow>
         (store @ [newBottomUpNode (atOpt (m_locations model) (cn_locationId node)) (Some aggregate)])
           [aggregate := agg\<lparr> bu_children :=
              bu_children agg @ [(cn_locationId node, length store)] \<rparr>])"
  have pick: "(case found of
                    Some c \<Rightarrow> (c, store)
                  | None \<Rightarrow>
                      (length store,
                       (store @ [newBottomUpNode
                                   (atOpt (m_locations model) (cn_locationId node))
                                   (Some aggregate)])
                         [aggregate := agg\<lparr> bu_children :=
                            bu_children agg @ [(cn_locationId node, length store)] \<rparr>]))
              = (child, store1)"
    by (simp add: child_def store1_def split: option.splits)
  have c1: "child < length store1"
  proof (cases found)
    case None
    then show ?thesis by (simp add: child_def store1_def)
  next
    case (Some c)
    then have "(cn_locationId node, c) \<in> set (bu_children (store ! aggregate))"
      by (simp add: found_def agg_def map_of_SomeD)
    moreover have "\<forall>kc \<in> set (bu_children (store ! aggregate)). snd kc < length store"
      using Suc.prems(1,2) by (simp add: wfStore_def)
    ultimately have "c < length store" by fastforce
    then show ?thesis using Some by (simp add: child_def store1_def)
  qed
  have w1: "wfStore store1"
  proof (cases found)
    case (Some c)
    then show ?thesis using Suc.prems(1) by (simp add: store1_def)
  next
    case None
    have len: "length store1 = Suc (length store)" using None by (simp add: store1_def)
    have nth: "\<And>a. a < length store1 \<Longrightarrow>
        store1 ! a = (if a = aggregate
                      then agg\<lparr> bu_children := bu_children agg @ [(cn_locationId node, length store)] \<rparr>
                      else if a = length store
                      then newBottomUpNode (atOpt (m_locations model) (cn_locationId node)) (Some aggregate)
                      else store ! a)"
      using None Suc.prems(2) by (auto simp: store1_def nth_list_update nth_append)
    have "\<forall>a<length store1. case bu_parent (store1 ! a) of None \<Rightarrow> a = 0 | Some p \<Rightarrow> p < a"
    proof (intro allI impI)
      fix a assume a: "a < length store1"
      show "case bu_parent (store1 ! a) of None \<Rightarrow> a = 0 | Some p \<Rightarrow> p < a"
        using a Suc.prems(1,2) nth[OF a] len
        by (auto simp: wfStore_def agg_def newBottomUpNode_def split: option.splits)
    qed
    moreover have "\<forall>a<length store1. \<forall>kc \<in> set (bu_children (store1 ! a)). snd kc < length store1"
    proof (intro allI impI ballI)
      fix a kc assume a: "a < length store1" and kc: "kc \<in> set (bu_children (store1 ! a))"
      show "snd kc < length store1"
        using a kc Suc.prems(1,2) nth[OF a] len
        by (auto simp: wfStore_def agg_def newBottomUpNode_def less_Suc_eq split: if_splits)
    qed
    ultimately show ?thesis using len by (auto simp: wfStore_def)
  qed
  have root1: "bu_aggregateTime (store1 ! 0) = bu_aggregateTime (store ! 0)
             \<and> bu_selfTime (store1 ! 0) = bu_selfTime (store ! 0)"
    using Suc.prems(1,2)
    by (cases found) (auto simp: store1_def agg_def wfStore_def nth_list_update nth_append)
  from Suc.prems(3) o pick obtain store2 where
    ad: "addNode depth child node store1 = Inr store2"
    and rest: "(case cn_parent node of
                     None \<Rightarrow> Inr store2
                   | Some p \<Rightarrow>
                       if p = 0 then Inr store2
                       else processNode depth child (elems (m_nodes model) p) model store2) = Inr store'"
    by (auto simp: found_def[symmetric] split: sum.splits)
  from addNode_root[OF w1 c1 ad] have l2: "sameLinks store1 store2"
    and a2: "bu_aggregateTime (store2 ! 0) = bu_aggregateTime (store1 ! 0) + cn_aggregateTime node"
    and s2: "bu_selfTime (store2 ! 0) = bu_selfTime (store1 ! 0) + cn_selfTime node"
    by simp_all
  have w2: "wfStore store2" by (rule wfStore_sameLinks[OF w1 l2])
  have c2: "child < length store2" using c1 l2 by (simp add: sameLinks_def)
  show ?case
  proof (cases "\<exists>p. cn_parent node = Some p \<and> p \<noteq> 0")
    case False
    then have "store' = store2" and "parentChain (Suc depth) model node = [node]"
      using rest by (auto split: option.splits if_splits)
    then show ?thesis using w2 a2 s2 root1 by simp
  next
    case True
    then obtain p where p: "cn_parent node = Some p" "p \<noteq> 0" by blast
    with rest have r: "processNode depth child (elems (m_nodes model) p) model store2 = Inr store'"
      by simp
    then obtain parent where pn: "elems (m_nodes model) p = Some parent"
      by (cases depth; cases "elems (m_nodes model) p") auto
    from Suc.IH[OF w2 c2 r[unfolded pn]]
    have "wfStore store'"
      and "bu_aggregateTime (store' ! 0)
       = bu_aggregateTime (store2 ! 0) + sum_list (map cn_aggregateTime (parentChain depth model parent))"
      and "bu_selfTime (store' ! 0)
       = bu_selfTime (store2 ! 0) + sum_list (map cn_selfTime (parentChain depth model parent))"
      by simp_all
    moreover have "parentChain (Suc depth) model node = node # parentChain depth model parent"
      using p pn by simp
    ultimately show ?thesis using a2 s2 root1 by simp
  qed
qed

lemma processLeaves_root:
  "wfStore store \<Longrightarrow> processLeaves stack model is store = Inr store' \<Longrightarrow>
   wfStore store'
   \<and> bu_aggregateTime (store' ! 0)
       = bu_aggregateTime (store ! 0)
         + (\<Sum>i\<leftarrow>is. sum_list (map cn_aggregateTime (leafChain stack model i)))
   \<and> bu_selfTime (store' ! 0)
       = bu_selfTime (store ! 0)
         + (\<Sum>i\<leftarrow>is. sum_list (map cn_selfTime (leafChain stack model i)))"
proof (induction "is" arbitrary: store)
  case Nil
  then show ?case by simp
next
  case (Cons i rest)
  from Cons.prems(2) obtain node where node: "elems (m_nodes model) (int i) = Some node"
    by (cases "elems (m_nodes model) (int i)") auto
  show ?case
  proof (cases "cn_children node = []")
    case False
    then have "processLeaves stack model rest store = Inr store'"
      and "leafChain stack model i = []"
      using Cons.prems(2) node by (simp_all add: leafChain_def)
    then show ?thesis using Cons.IH[OF Cons.prems(1)] by simp
  next
    case True
    with Cons.prems(2) node obtain store1 where
      p: "processNode stack 0 (Some node) model store = Inr store1"
      and r: "processLeaves stack model rest store1 = Inr store'"
      by (auto split: sum.splits)
    have z: "0 < length store" using Cons.prems(1) by (simp add: wfStore_def)
    from processNode_root[OF Cons.prems(1) z p]
    have w1: "wfStore store1"
      and a1: "bu_aggregateTime (store1 ! 0)
       = bu_aggregateTime (store ! 0) + sum_list (map cn_aggregateTime (parentChain stack model node))"
      and s1: "bu_selfTime (store1 ! 0)
       = bu_selfTime (store ! 0) + sum_list (map cn_selfTime (parentChain stack model node))"
      by simp_all
    have "leafChain stack model i = parentChain stack model node"
      using node True by (simp add: leafChain_def)
    then show ?thesis using Cons.IH[OF w1 r] a1 s1 by simp
  qed
qed

text \<open>
  That \<open>createBottomUpGraph\<close> returns on a built model. The children of the nodes of a
  built model form trees of bounded height, and the parent a node holds lists the node
  among its children: so the parent chain of every node ends, within as many steps as the
  trees are high.
\<close>

fun within :: "nat \<Rightarrow> IComputedNode JsArray \<Rightarrow> int \<Rightarrow> bool" where
  "within 0 nodes k = False"
| "within (Suc d) nodes k =
     (case elems nodes k of
        None \<Rightarrow> False
      | Some n \<Rightarrow> (\<forall>c \<in> set (cn_children n). within d nodes c))"

fun chainEnds :: "nat \<Rightarrow> IProfileModel \<Rightarrow> IComputedNode \<Rightarrow> bool" where
  "chainEnds 0 model node = False"
| "chainEnds (Suc c) model node =
     (case cn_parent node of
        None \<Rightarrow> True
      | Some p \<Rightarrow>
          if p = 0 then True
          else (case elems (m_nodes model) p of
                  None \<Rightarrow> False
                | Some parent \<Rightarrow> chainEnds c model parent))"

lemma within_Suc: "within d nodes k \<Longrightarrow> within (Suc d) nodes k"
proof (induction d arbitrary: k)
  case 0
  then show ?case by simp
next
  case (Suc d)
  then obtain n where n: "elems nodes k = Some n"
    and c: "\<forall>c \<in> set (cn_children n). within d nodes c"
    by (cases "elems nodes k") auto
  have "\<forall>c \<in> set (cn_children n). within (Suc d) nodes c"
    using c Suc.IH by blast
  then show ?case using n by simp
qed

lemma within_le: "within d nodes k \<Longrightarrow> d \<le> e \<Longrightarrow> within e nodes k"
proof (induction e)
  case 0
  then show ?case by simp
next
  case (Suc e)
  show ?case
  proof (cases "d = Suc e")
    case True
    then show ?thesis using Suc.prems(1) by simp
  next
    case False
    then have "d \<le> e" using Suc.prems(2) by simp
    from within_Suc[OF Suc.IH[OF Suc.prems(1) this]] show ?thesis .
  qed
qed

lemma settled_within: "settled nodes k \<Longrightarrow> \<exists>d. within d nodes k"
proof (induction rule: settled.induct)
  case (settledI k n)
  have "\<forall>c \<in> set (cn_children n). \<exists>d. \<forall>e \<ge> d. within e nodes c"
  proof
    fix c assume "c \<in> set (cn_children n)"
    then obtain d where "within d nodes c" using settledI.IH by blast
    then have "\<forall>e \<ge> d. within e nodes c" using within_le by blast
    then show "\<exists>d. \<forall>e \<ge> d. within e nodes c" by blast
  qed
  from uniform_depth[where P = "\<lambda>c e. within e nodes c", OF this]
  obtain d where d: "\<forall>c \<in> set (cn_children n). \<forall>e \<ge> d. within e nodes c" by blast
  then have "within (Suc d) nodes k" using settledI.hyps(1) by simp
  then show ?case by blast
qed

lemma all_within:
  assumes "\<forall>j<L. settled nodes (int j)"
  shows "\<exists>H. \<forall>j<L. within H nodes (int j)"
proof -
  have "\<forall>c \<in> set (map int [0..<L]). \<exists>d. \<forall>e \<ge> d. within e nodes c"
  proof
    fix c assume "c \<in> set (map int [0..<L])"
    then have "settled nodes c" using assms by auto
    then obtain d where "within d nodes c" using settled_within by blast
    then have "\<forall>e \<ge> d. within e nodes c" using within_le by blast
    then show "\<exists>d. \<forall>e \<ge> d. within e nodes c" by blast
  qed
  from uniform_depth[where P = "\<lambda>c e. within e nodes c", OF this]
  obtain d where "\<forall>c \<in> set (map int [0..<L]). \<forall>e \<ge> d. within e nodes c" by blast
  then have "\<forall>j<L. within d nodes (int j)" by simp
  then show ?thesis by blast
qed

lemma chain_bound:
  assumes lk: "linked (m_nodes model)"
    and dm: "dom (elems (m_nodes model)) = int ` {0..<len (m_nodes model)}"
    and H: "\<forall>j<len (m_nodes model). within H (m_nodes model) (int j)"
  shows "i \<le> H \<Longrightarrow> elems (m_nodes model) k = Some n \<Longrightarrow>
         \<not> within (H - i) (m_nodes model) k \<Longrightarrow> chainEnds i model n"
proof (induction i arbitrary: k n)
  case 0
  from "0.prems"(2) have "k \<in> dom (elems (m_nodes model))" by (simp add: dom_def)
  then obtain j where "k = int j" "j < len (m_nodes model)" using dm by auto
  then have "within H (m_nodes model) k" using H by simp
  then show ?case using "0.prems"(3) by simp
next
  case (Suc i)
  show ?case
  proof (cases "\<exists>p. cn_parent n = Some p \<and> p \<noteq> 0")
    case False
    then show ?thesis by (auto split: option.splits)
  next
    case True
    then obtain p where p: "cn_parent n = Some p" "p \<noteq> 0" by blast
    from lk Suc.prems(2) p(1) obtain pn where
      pn: "elems (m_nodes model) p = Some pn" and kin: "k \<in> set (cn_children pn)"
      unfolding linked_def by force
    have hi: "H - i = Suc (H - Suc i)" using Suc.prems(1) by simp
    have "\<not> within (H - i) (m_nodes model) p"
    proof
      assume "within (H - i) (m_nodes model) p"
      then have "within (H - Suc i) (m_nodes model) k"
        unfolding hi using pn kin by simp
      then show False using Suc.prems(3) by simp
    qed
    from Suc.IH[OF _ pn this] Suc.prems(1) have "chainEnds i model pn" by simp
    then show ?thesis using p pn by simp
  qed
qed

lemma parentChain_stable:
  "chainEnds c model node \<Longrightarrow> c \<le> s \<Longrightarrow> parentChain s model node = parentChain c model node"
proof (induction c arbitrary: s node)
  case 0
  then show ?case by simp
next
  case (Suc c)
  from Suc.prems(2) obtain s' where s: "s = Suc s'" "c \<le> s'" by (cases s) auto
  show ?case
  proof (cases "\<exists>p. cn_parent node = Some p \<and> p \<noteq> 0")
    case False
    then show ?thesis unfolding s by (auto split: option.splits)
  next
    case True
    then obtain p where p: "cn_parent node = Some p" "p \<noteq> 0" by blast
    show ?thesis
    proof (cases "elems (m_nodes model) p")
      case None
      then show ?thesis unfolding s using p by simp
    next
      case (Some parent)
      then have "chainEnds c model parent" using Suc.prems(1) p by simp
      from Suc.IH[OF this s(2)] show ?thesis unfolding s using p Some by simp
    qed
  qed
qed

lemma addNode_returns:
  "wfStore store \<Longrightarrow> this < length store \<Longrightarrow> this < depth \<Longrightarrow>
   \<exists>store'. addNode depth this node store = Inr store'"
proof (induction depth arbitrary: this store)
  case 0
  then show ?case by simp
next
  case (Suc depth)
  define obj where "obj = store ! this"
  define store1 where "store1 = store[this := obj\<lparr> bu_selfTime := bu_selfTime obj + cn_selfTime node,
                                          bu_aggregateTime :=
                                            bu_aggregateTime obj + cn_aggregateTime node \<rparr>]"
  have o: "objectAt store this = Some obj"
    using Suc.prems(2) by (simp add: objectAt_def obj_def)
  have l1: "sameLinks store store1"
    using Suc.prems(2) by (auto simp: sameLinks_def store1_def obj_def nth_list_update)
  have w1: "wfStore store1" by (rule wfStore_sameLinks[OF Suc.prems(1) l1])
  show ?case
  proof (cases "bu_parent obj")
    case None
    then have "addNode (Suc depth) this node store = Inr store1"
      using o by (simp add: store1_def Let_def)
    then show ?thesis by blast
  next
    case (Some p)
    then have p: "p < this"
      using Suc.prems(1,2) by (auto simp: wfStore_def obj_def split: option.splits)
    have pl: "p < length store1" using p Suc.prems(2) by (simp add: store1_def)
    have pd: "p < depth" using p Suc.prems(3) by simp
    from Suc.IH[OF w1 pl pd] obtain store' where "addNode depth p node store1 = Inr store'"
      by blast
    then have "addNode (Suc depth) this node store = Inr store'"
      using o Some by (simp add: store1_def Let_def)
    then show ?thesis by blast
  qed
qed

lemma childFor_props:
  assumes w: "wfStore store" and a: "aggregate < length store"
    and pick: "(case map_of (bu_children (store ! aggregate)) key of
                    Some c \<Rightarrow> (c, store)
                  | None \<Rightarrow>
                      (length store,
                       (store @ [newBottomUpNode loc (Some aggregate)])
                         [aggregate := (store ! aggregate)\<lparr> bu_children :=
                            bu_children (store ! aggregate) @ [(key, length store)] \<rparr>]))
              = (child, store1)"
  shows "wfStore store1 \<and> child < length store1 \<and> length store1 \<le> Suc (length store)"
proof (cases "map_of (bu_children (store ! aggregate)) key")
  case (Some c)
  then have e: "child = c" "store1 = store" using pick by simp_all
  have "(key, c) \<in> set (bu_children (store ! aggregate))"
    using Some by (simp add: map_of_SomeD)
  moreover have "\<forall>kc \<in> set (bu_children (store ! aggregate)). snd kc < length store"
    using w a by (simp add: wfStore_def)
  ultimately have "c < length store" by fastforce
  then show ?thesis using e w by simp
next
  case None
  define agg where "agg = store ! aggregate"
  have e: "child = length store"
    "store1 = (store @ [newBottomUpNode loc (Some aggregate)])
                [aggregate := agg\<lparr> bu_children := bu_children agg @ [(key, length store)] \<rparr>]"
    using pick None by (auto simp: agg_def)
  have len: "length store1 = Suc (length store)" by (simp add: e)
  have nth: "\<And>a. a < length store1 \<Longrightarrow>
        store1 ! a = (if a = aggregate
                      then agg\<lparr> bu_children := bu_children agg @ [(key, length store)] \<rparr>
                      else if a = length store
                      then newBottomUpNode loc (Some aggregate)
                      else store ! a)"
    using a by (auto simp: e nth_list_update nth_append)
  have "\<forall>a<length store1. case bu_parent (store1 ! a) of None \<Rightarrow> a = 0 | Some p \<Rightarrow> p < a"
  proof (intro allI impI)
    fix b assume b: "b < length store1"
    show "case bu_parent (store1 ! b) of None \<Rightarrow> b = 0 | Some p \<Rightarrow> p < b"
      using b w a nth[OF b] len
      by (auto simp: wfStore_def agg_def newBottomUpNode_def split: option.splits)
  qed
  moreover have "\<forall>a<length store1. \<forall>kc \<in> set (bu_children (store1 ! a)). snd kc < length store1"
  proof (intro allI impI ballI)
    fix b kc assume b: "b < length store1" and kc: "kc \<in> set (bu_children (store1 ! b))"
    show "snd kc < length store1"
      using b kc w a nth[OF b] len
      by (auto simp: wfStore_def agg_def newBottomUpNode_def less_Suc_eq split: if_splits)
  qed
  ultimately have "wfStore store1" using len by (auto simp: wfStore_def)
  then show ?thesis using len e(1) by simp
qed

lemma processNode_returns:
  "chainEnds c model node \<Longrightarrow> wfStore store \<Longrightarrow> aggregate < length store \<Longrightarrow>
   length store + 2 * c \<le> depth \<Longrightarrow>
   \<exists>store'. processNode depth aggregate (Some node) model store = Inr store'
            \<and> length store' \<le> length store + c"
proof (induction c arbitrary: depth aggregate node store)
  case 0
  then show ?case by simp
next
  case (Suc c)
  from Suc.prems(4) obtain depth' where d: "depth = Suc depth'"
    and dl: "length store + 1 + 2 * c \<le> depth'"
    by (cases depth) auto
  have o: "objectAt store aggregate = Some (store ! aggregate)"
    using Suc.prems(3) by (simp add: objectAt_def)
  obtain child store1 where pick:
    "(case map_of (bu_children (store ! aggregate)) (cn_locationId node) of
                    Some c \<Rightarrow> (c, store)
                  | None \<Rightarrow>
                      (length store,
                       (store @ [newBottomUpNode
                                   (atOpt (m_locations model) (cn_locationId node))
                                   (Some aggregate)])
                         [aggregate := (store ! aggregate)\<lparr> bu_children :=
                            bu_children (store ! aggregate) @ [(cn_locationId node, length store)] \<rparr>]))
              = (child, store1)"
    by (cases "(case map_of (bu_children (store ! aggregate)) (cn_locationId node) of
                    Some c \<Rightarrow> (c, store)
                  | None \<Rightarrow>
                      (length store,
                       (store @ [newBottomUpNode
                                   (atOpt (m_locations model) (cn_locationId node))
                                   (Some aggregate)])
                         [aggregate := (store ! aggregate)\<lparr> bu_children :=
                            bu_children (store ! aggregate) @ [(cn_locationId node, length store)] \<rparr>]))")
  from childFor_props[OF Suc.prems(2,3) pick]
  have w1: "wfStore store1" and c1: "child < length store1"
    and len1: "length store1 \<le> Suc (length store)" by simp_all
  have "child < depth'" using c1 len1 dl by simp
  from addNode_returns[OF w1 c1 this] obtain store2 where
    ad: "addNode depth' child node store1 = Inr store2" by blast
  from addNode_root[OF w1 c1 ad] have l2: "sameLinks store1 store2" by simp
  have w2: "wfStore store2" by (rule wfStore_sameLinks[OF w1 l2])
  have len2: "length store2 = length store1" using l2 by (simp add: sameLinks_def)
  have c2: "child < length store2" using c1 len2 by simp
  have step: "processNode depth aggregate (Some node) model store
      = (case cn_parent node of
                     None \<Rightarrow> Inr store2
                   | Some p \<Rightarrow>
                       if p = 0 then Inr store2
                       else processNode depth' child (elems (m_nodes model) p) model store2)"
    unfolding d using o pick ad by simp
  show ?case
  proof (cases "\<exists>p. cn_parent node = Some p \<and> p \<noteq> 0")
    case False
    then have "processNode depth aggregate (Some node) model store = Inr store2"
      unfolding step by (auto split: option.splits)
    then show ?thesis using len2 len1 by simp
  next
    case True
    then obtain p where p: "cn_parent node = Some p" "p \<noteq> 0" by blast
    from Suc.prems(1) p obtain parent where pn: "elems (m_nodes model) p = Some parent"
      and ce: "chainEnds c model parent"
      by (cases "elems (m_nodes model) p") auto
    have "length store2 + 2 * c \<le> depth'" using len2 len1 dl by simp
    from Suc.IH[OF ce w2 c2 this] obtain store' where
      r: "processNode depth' child (Some parent) model store2 = Inr store'"
      and l: "length store' \<le> length store2 + c" by blast
    have "processNode depth aggregate (Some node) model store = Inr store'"
      unfolding step using p pn r by simp
    then show ?thesis using l len2 len1 by simp
  qed
qed

lemma processLeaves_returns:
  "wfStore store \<Longrightarrow>
   \<forall>i \<in> set is. \<exists>node. elems (m_nodes model) (int i) = Some node \<and> chainEnds c model node \<Longrightarrow>
   length store + length is * c + 2 * c \<le> stack \<Longrightarrow>
   \<exists>store'. processLeaves stack model is store = Inr store'"
proof (induction "is" arbitrary: store)
  case Nil
  then show ?case by simp
next
  case (Cons i rest)
  from Cons.prems(2) obtain node where node: "elems (m_nodes model) (int i) = Some node"
    and ce: "chainEnds c model node" by auto
  have rest: "\<forall>i \<in> set rest. \<exists>node. elems (m_nodes model) (int i) = Some node
                \<and> chainEnds c model node"
    using Cons.prems(2) by simp
  show ?case
  proof (cases "cn_children node = []")
    case False
    have "length store + length rest * c + 2 * c \<le> stack" using Cons.prems(3) by simp
    from Cons.IH[OF Cons.prems(1) rest this] obtain store' where
      "processLeaves stack model rest store = Inr store'" by blast
    then have "processLeaves stack model (i # rest) store = Inr store'"
      using node False by simp
    then show ?thesis by blast
  next
    case True
    have z: "0 < length store" using Cons.prems(1) by (simp add: wfStore_def)
    have "length store + 2 * c \<le> stack" using Cons.prems(3) by simp
    from processNode_returns[OF ce Cons.prems(1) z this] obtain store1 where
      p: "processNode stack 0 (Some node) model store = Inr store1"
      and l: "length store1 \<le> length store + c" by blast
    from processNode_root[OF Cons.prems(1) z p] have w1: "wfStore store1" by simp
    have "length store1 + length rest * c + 2 * c \<le> stack" using Cons.prems(3) l by simp
    from Cons.IH[OF w1 rest this] obtain store' where
      "processLeaves stack model rest store1 = Inr store'" by blast
    then have "processLeaves stack model (i # rest) store = Inr store'"
      using node True p by simp
    then show ?thesis by blast
  qed
qed

lemma groupByLocation_returns:
  "\<forall>i \<in> set is. \<exists>node. elems (m_nodes model) (int i) = Some node
        \<and> atOpt (m_locations model) (cn_locationId node) \<noteq> None \<Longrightarrow>
   groupByLocation model is = Inr ()"
  by (induction "is") auto

lemma buildModel_graph:
  assumes "fst (buildModel utils stack0 profile) = Inr m"
  shows "dom (elems (m_nodes m)) = int ` {0..<len (m_nodes m)}"
    and "\<forall>k n. elems (m_nodes m) k = Some n \<longrightarrow>
           settled (m_nodes m) k \<and> atOpt (m_locations m) (cn_locationId n) \<noteq> None"
    and "linked (m_nodes m)"
proof -
  from buildModel_cases[OF assms]
  consider (soft) "m_nodes m = newArray 0"
    | (main) smps tds locs0 where
        "buildNodes stack0 (snd (buildModel utils stack0 profile)) smps tds locs0 = Inr m"
    by auto
  then have "dom (elems (m_nodes m)) = int ` {0..<len (m_nodes m)}
     \<and> (\<forall>k n. elems (m_nodes m) k = Some n \<longrightarrow>
           settled (m_nodes m) k \<and> atOpt (m_locations m) (cn_locationId n) \<noteq> None)
     \<and> linked (m_nodes m)"
  proof cases
    case soft
    then show ?thesis by (simp add: newArray_def linked_def)
  next
    case main
    note p = buildNodes_props[OF main]
    show ?thesis using p(2) p(3) p(5) by blast
  qed
  then show "dom (elems (m_nodes m)) = int ` {0..<len (m_nodes m)}"
    and "\<forall>k n. elems (m_nodes m) k = Some n \<longrightarrow>
           settled (m_nodes m) k \<and> atOpt (m_locations m) (cn_locationId n) \<noteq> None"
    and "linked (m_nodes m)"
    by blast+
qed

lemma createBottomUpGraph_returns:
  assumes dm: "dom (elems (m_nodes model)) = int ` {0..<len (m_nodes model)}"
    and st: "\<forall>k n. elems (m_nodes model) k = Some n \<longrightarrow>
           settled (m_nodes model) k \<and> atOpt (m_locations model) (cn_locationId n) \<noteq> None"
    and lk: "linked (m_nodes model)"
  shows "\<exists>d. \<forall>stack \<ge> d. (\<exists>store. createBottomUpGraph stack model = Inr store)
                         \<and> (\<forall>i. leafChain stack model i = leafChain d model i)"
proof -
  have ex: "\<forall>j<len (m_nodes model). \<exists>node. elems (m_nodes model) (int j) = Some node"
    using dm by (auto simp: dom_def)
  have "\<forall>j<len (m_nodes model). settled (m_nodes model) (int j)"
    using ex st by blast
  from all_within[OF this] obtain H where
    H: "\<forall>j<len (m_nodes model). within H (m_nodes model) (int j)" by blast
  have ce: "\<And>k n. elems (m_nodes model) k = Some n \<Longrightarrow> chainEnds H model n"
  proof -
    fix k n assume "elems (m_nodes model) k = Some n"
    from chain_bound[OF lk dm H _ this, of H] show "chainEnds H model n" by simp
  qed
  define d where "d = 1 + len (m_nodes model) * H + 2 * H"
  have g: "groupByLocation model [0..<len (m_nodes model)] = Inr ()"
    by (rule groupByLocation_returns) (use ex st in auto)
  have "\<forall>stack \<ge> d. (\<exists>store. createBottomUpGraph stack model = Inr store)
                         \<and> (\<forall>i. leafChain stack model i = leafChain d model i)"
  proof (intro allI impI conjI)
    fix stack assume s: "d \<le> stack"
    define store0 where "store0 = [newBottomUpNode (Some rootLocation) None]"
    have w: "wfStore store0" by (simp add: store0_def wfStore_def newBottomUpNode_def)
    have nodes: "\<forall>i \<in> set [0..<len (m_nodes model)].
        \<exists>node. elems (m_nodes model) (int i) = Some node \<and> chainEnds H model node"
      using ex ce by auto
    have "length store0 + length [0..<len (m_nodes model)] * H + 2 * H \<le> stack"
      using s by (simp add: store0_def d_def)
    from processLeaves_returns[OF w nodes this] obtain store where
      "processLeaves stack model [0..<len (m_nodes model)] store0 = Inr store" by blast
    then have "createBottomUpGraph stack model = Inr store"
      using g by (simp add: createBottomUpGraph_def store0_def)
    then show "\<exists>store. createBottomUpGraph stack model = Inr store" by blast
  next
    fix stack i assume s: "d \<le> stack"
    have hd: "H \<le> d" by (simp add: d_def)
    show "leafChain stack model i = leafChain d model i"
    proof (cases "elems (m_nodes model) (int i)")
      case None
      then show ?thesis by (simp add: leafChain_def)
    next
      case (Some node)
      have "parentChain stack model node = parentChain H model node"
        by (rule parentChain_stable[OF ce[OF Some]]) (use hd s in simp)
      moreover have "parentChain d model node = parentChain H model node"
        by (rule parentChain_stable[OF ce[OF Some] hd])
      ultimately show ?thesis using Some by (simp add: leafChain_def)
    qed
  qed
  then show ?thesis by blast
qed

lemma createBottomUpGraph_value:
  assumes "createBottomUpGraph stack model = Inr store"
  shows "bottomUpRoot (Inr store) = Some (store ! 0)
     \<and> bu_aggregateTime (store ! 0)
         = (\<Sum>i\<leftarrow>[0..<len (m_nodes model)].
              sum_list (map cn_aggregateTime (leafChain stack model i)))
     \<and> bu_selfTime (store ! 0)
         = (\<Sum>i\<leftarrow>[0..<len (m_nodes model)].
              sum_list (map cn_selfTime (leafChain stack model i)))"
proof -
  define store0 where "store0 = [newBottomUpNode (Some rootLocation) None]"
  have w: "wfStore store0" by (simp add: store0_def wfStore_def newBottomUpNode_def)
  from assms have p: "processLeaves stack model [0..<len (m_nodes model)] store0 = Inr store"
    by (auto simp: createBottomUpGraph_def store0_def split: sum.splits)
  from processLeaves_root[OF w p]
  have "wfStore store"
    and "bu_aggregateTime (store ! 0)
       = bu_aggregateTime (store0 ! 0)
         + (\<Sum>i\<leftarrow>[0..<len (m_nodes model)]. sum_list (map cn_aggregateTime (leafChain stack model i)))"
    and "bu_selfTime (store ! 0)
       = bu_selfTime (store0 ! 0)
         + (\<Sum>i\<leftarrow>[0..<len (m_nodes model)]. sum_list (map cn_selfTime (leafChain stack model i)))"
    by simp_all
  then show ?thesis
    by (simp add: store0_def newBottomUpNode_def bottomUpRoot_def objectAt_def wfStore_def)
qed

text \<open>
  C2, as stated, fails on the code. In the model of the scenario (self times 0, 5, 5 and
  aggregate times 10, 10, 5) the only leaf is the grandchild: \<open>processNode\<close> adds its
  aggregate time 5 and then the aggregate time 10 of its parent to the root, which ends
  with aggregateTime 15, while the self times of all ComputedNodes sum to 10.
\<close>

theorem bottomUp_root_counterexample:
  "fst (buildModel plainUtils 10 chainProfile) = Inr chainModel
   \<and> map_option bu_aggregateTime (bottomUpRoot (createBottomUpGraph 10 chainModel)) = Some 15
   \<and> totalSelfTime (m_nodes chainModel) = 10"
proof -
  have "map_option bu_aggregateTime (bottomUpRoot (createBottomUpGraph 10 chainModel)) = Some 15"
    by code_simp
  moreover have "totalSelfTime (m_nodes chainModel) = 10" by code_simp
  ultimately show ?thesis using chainModel_built by simp
qed

text \<open>
  C2, amended: for every built ProfileModel, \<open>createBottomUpGraph\<close> returns once the stack
  admits enough nested calls, and the root of the returned tree has aggregateTime equal to
  the sum, over the leaf ComputedNodes (the nodes with no children), of the aggregateTime
  of the leaf and of every ancestor that \<open>processNode\<close> visits from it (the parent chain,
  followed while the parent id is defined and not 0); its selfTime is the same sum of the
  self times. Every node of such a chain is propagated additively to the synthetic root.
  The chains, and so the sums, are those of any sufficient stack; and whenever the call
  returns, on any stack, the root holds these sums.
\<close>

theorem createBottomUpGraph_root:
  assumes "fst (buildModel utils stack0 profile) = Inr model"
  shows "(\<exists>d. \<forall>stack \<ge> d. \<exists>store.
            createBottomUpGraph stack model = Inr store
          \<and> bottomUpRoot (Inr store) = Some (store ! 0)
          \<and> bu_aggregateTime (store ! 0)
              = (\<Sum>i\<leftarrow>[0..<len (m_nodes model)].
                   sum_list (map cn_aggregateTime (leafChain d model i)))
          \<and> bu_selfTime (store ! 0)
              = (\<Sum>i\<leftarrow>[0..<len (m_nodes model)].
                   sum_list (map cn_selfTime (leafChain d model i)))
          \<and> (\<forall>i. leafChain stack model i = leafChain d model i))
     \<and> (\<forall>stack store. createBottomUpGraph stack model = Inr store \<longrightarrow>
            bottomUpRoot (Inr store) = Some (store ! 0)
          \<and> bu_aggregateTime (store ! 0)
              = (\<Sum>i\<leftarrow>[0..<len (m_nodes model)].
                   sum_list (map cn_aggregateTime (leafChain stack model i)))
          \<and> bu_selfTime (store ! 0)
              = (\<Sum>i\<leftarrow>[0..<len (m_nodes model)].
                   sum_list (map cn_selfTime (leafChain stack model i))))"
proof (rule conjI)
  note g = buildModel_graph[OF assms]
  from createBottomUpGraph_returns[OF g] obtain d where
    d: "\<forall>stack \<ge> d. (\<exists>store. createBottomUpGraph stack model = Inr store)
                         \<and> (\<forall>i. leafChain stack model i = leafChain d model i)"
    by blast
  have "\<forall>stack \<ge> d. \<exists>store.
            createBottomUpGraph stack model = Inr store
          \<and> bottomUpRoot (Inr store) = Some (store ! 0)
          \<and> bu_aggregateTime (store ! 0)
              = (\<Sum>i\<leftarrow>[0..<len (m_nodes model)].
                   sum_list (map cn_aggregateTime (leafChain d model i)))
          \<and> bu_selfTime (store ! 0)
              = (\<Sum>i\<leftarrow>[0..<len (m_nodes model)].
                   sum_list (map cn_selfTime (leafChain d model i)))
          \<and> (\<forall>i. leafChain stack model i = leafChain d model i)"
  proof (intro allI impI)
    fix stack assume s: "d \<le> stack"
    from d s obtain store where c: "createBottomUpGraph stack model = Inr store"
      and e: "\<forall>i. leafChain stack model i = leafChain d model i" by blast
    note v = createBottomUpGraph_value[OF c]
    have e': "\<And>i. leafChain stack model i = leafChain d model i" using e by blast
    have "bottomUpRoot (Inr store) = Some (store ! 0)" using v by blast
    moreover have "bu_aggregateTime (store ! 0)
              = (\<Sum>i\<leftarrow>[0..<len (m_nodes model)].
                   sum_list (map cn_aggregateTime (leafChain d model i)))"
      using v[THEN conjunct2, THEN conjunct1] by (simp only: e')
    moreover have "bu_selfTime (store ! 0)
              = (\<Sum>i\<leftarrow>[0..<len (m_nodes model)].
                   sum_list (map cn_selfTime (leafChain d model i)))"
      using v[THEN conjunct2, THEN conjunct2] by (simp only: e')
    ultimately show "\<exists>store.
            createBottomUpGraph stack model = Inr store
          \<and> bottomUpRoot (Inr store) = Some (store ! 0)
          \<and> bu_aggregateTime (store ! 0)
              = (\<Sum>i\<leftarrow>[0..<len (m_nodes model)].
                   sum_list (map cn_aggregateTime (leafChain d model i)))
          \<and> bu_selfTime (store ! 0)
              = (\<Sum>i\<leftarrow>[0..<len (m_nodes model)].
                   sum_list (map cn_selfTime (leafChain d model i)))
          \<and> (\<forall>i. leafChain stack model i = leafChain d model i)"
      using c e by blast
  qed
  then show "\<exists>d. \<forall>stack \<ge> d. \<exists>store.
            createBottomUpGraph stack model = Inr store
          \<and> bottomUpRoot (Inr store) = Some (store ! 0)
          \<and> bu_aggregateTime (store ! 0)
              = (\<Sum>i\<leftarrow>[0..<len (m_nodes model)].
                   sum_list (map cn_aggregateTime (leafChain d model i)))
          \<and> bu_selfTime (store ! 0)
              = (\<Sum>i\<leftarrow>[0..<len (m_nodes model)].
                   sum_list (map cn_selfTime (leafChain d model i)))
          \<and> (\<forall>i. leafChain stack model i = leafChain d model i)"
    by (rule exI)
next
  show "\<forall>stack store. createBottomUpGraph stack model = Inr store \<longrightarrow>
            bottomUpRoot (Inr store) = Some (store ! 0)
          \<and> bu_aggregateTime (store ! 0)
              = (\<Sum>i\<leftarrow>[0..<len (m_nodes model)].
                   sum_list (map cn_aggregateTime (leafChain stack model i)))
          \<and> bu_selfTime (store ! 0)
              = (\<Sum>i\<leftarrow>[0..<len (m_nodes model)].
                   sum_list (map cn_selfTime (leafChain stack model i)))"
    by (intro allI impI) (rule createBottomUpGraph_value)
qed

definition chainGraph :: "BottomUpNode list" where
  "chainGraph = projr (createBottomUpGraph 10 chainModel)"

theorem createBottomUpGraph_root_witness:
  "fst (buildModel plainUtils 10 chainProfile) = Inr chainModel
   \<and> createBottomUpGraph 10 chainModel = Inr chainGraph
   \<and> bottomUpRoot (Inr chainGraph) = Some (chainGraph ! 0)
   \<and> bu_aggregateTime (chainGraph ! 0)
       = (\<Sum>i\<leftarrow>[0..<len (m_nodes chainModel)].
            sum_list (map cn_aggregateTime (leafChain 10 chainModel i)))
   \<and> map (\<lambda>i. map cn_aggregateTime (leafChain 10 chainModel i)) [0..<len (m_nodes chainModel)]
       = [[], [], [5, 10]]
   \<and> bu_aggregateTime (chainGraph ! 0) = 15
   \<and> (\<exists>d store. createBottomUpGraph d chainModel = Inr store
          \<and> createBottomUpGraph (d + 1) chainModel \<noteq> Inl RangeError
          \<and> bottomUpRoot (Inr store) = Some (store ! 0)
          \<and> bu_aggregateTime (store ! 0)
              = (\<Sum>i\<leftarrow>[0..<len (m_nodes chainModel)].
                   sum_list (map cn_aggregateTime (leafChain d chainModel i))))"
proof -
  have "\<not> isl (createBottomUpGraph 10 chainModel)" by code_simp
  then have g: "createBottomUpGraph 10 chainModel = Inr chainGraph"
    by (simp add: chainGraph_def)
  have c: "map (\<lambda>i. map cn_aggregateTime (leafChain 10 chainModel i)) [0..<len (m_nodes chainModel)]
       = [[], [], [5, 10]]" by code_simp
  have v: "bu_aggregateTime (chainGraph ! 0) = 15" by code_simp
  note t = createBottomUpGraph_root[OF chainModel_built]
  note t2 = t[THEN conjunct2, rule_format, OF g]
  from t[THEN conjunct1] obtain d where
    d: "\<forall>stack \<ge> d. \<exists>store.
            createBottomUpGraph stack chainModel = Inr store
          \<and> bottomUpRoot (Inr store) = Some (store ! 0)
          \<and> bu_aggregateTime (store ! 0)
              = (\<Sum>i\<leftarrow>[0..<len (m_nodes chainModel)].
                   sum_list (map cn_aggregateTime (leafChain d chainModel i)))
          \<and> bu_selfTime (store ! 0)
              = (\<Sum>i\<leftarrow>[0..<len (m_nodes chainModel)].
                   sum_list (map cn_selfTime (leafChain d chainModel i)))
          \<and> (\<forall>i. leafChain stack chainModel i = leafChain d chainModel i)"
    by blast
  from d[rule_format, of d] obtain store where
    s: "createBottomUpGraph d chainModel = Inr store"
       "bottomUpRoot (Inr store) = Some (store ! 0)"
       "bu_aggregateTime (store ! 0)
              = (\<Sum>i\<leftarrow>[0..<len (m_nodes chainModel)].
                   sum_list (map cn_aggregateTime (leafChain d chainModel i)))"
    by auto
  from d[rule_format, of "d + 1"] have n: "createBottomUpGraph (d + 1) chainModel \<noteq> Inl RangeError"
    by auto
  have x: "\<exists>d store. createBottomUpGraph d chainModel = Inr store
          \<and> createBottomUpGraph (d + 1) chainModel \<noteq> Inl RangeError
          \<and> bottomUpRoot (Inr store) = Some (store ! 0)
          \<and> bu_aggregateTime (store ! 0)
              = (\<Sum>i\<leftarrow>[0..<len (m_nodes chainModel)].
                   sum_list (map cn_aggregateTime (leafChain d chainModel i)))"
    using s n by blast
  show ?thesis
    by (intro conjI) (fact chainModel_built g t2[THEN conjunct1] t2[THEN conjunct2, THEN conjunct1] c v x)+
qed

section \<open>Flame columns (buildColumns)\<close>

text \<open>
  The time of a cell is read from \<open>model.timeDeltas[i - 1]\<close>, which is \<open>undefined\<close> when
  the model has too few time deltas, and \<open>+=\<close> on \<open>undefined\<close> gives \<open>NaN\<close>: the times
  of the flame graph are integers, \<open>undefined\<close> or \<open>NaN\<close>.
\<close>

datatype JsNum = Num int | Undefined | NaN

fun jsAdd :: "JsNum \<Rightarrow> JsNum \<Rightarrow> JsNum" where
  "jsAdd (Num a) (Num b) = Num (a + b)"
| "jsAdd _ _ = NaN"

text \<open>
  A cell is \<open>{...location, graphId, selfTime, aggregateTime}\<close>: the fields of the location
  (none when \<open>model.locations[...]\<close> is \<open>undefined\<close>), with the two times overridden. A row
  is a cell or a number, the index of the column that holds the merged cell.
\<close>

record FlameCell =
  fc_location :: "ILocation option"
  graphId :: nat
  fc_selfTime :: JsNum
  fc_aggregateTime :: JsNum

datatype Row = Cell FlameCell | Ref int

text \<open>
  \<open>x1\<close> and \<open>x2\<close> are quotients by \<open>model.duration\<close> in floating point; the model keeps
  the numerator and the denominator.
\<close>

record IColumn =
  x1 :: "JsNum \<times> int"
  x2 :: "JsNum \<times> int"
  rows :: "Row list"

definition cellId :: "FlameCell \<Rightarrow> int option" where
  "cellId c = map_option loc_id (fc_location c)"

definition rowId :: "Row \<Rightarrow> int option" where
  \<comment> \<open>\<open>row.id\<close>; a number has no such property\<close>
  "rowId r = (case r of Cell c \<Rightarrow> cellId c | Ref _ \<Rightarrow> None)"

definition rowSelfTime :: "Row \<Rightarrow> JsNum" where
  "rowSelfTime r = (case r of Cell c \<Rightarrow> fc_selfTime c | Ref _ \<Rightarrow> Undefined)"

definition rowAggregateTime :: "Row \<Rightarrow> JsNum" where
  "rowAggregateTime r = (case r of Cell c \<Rightarrow> fc_aggregateTime c | Ref _ \<Rightarrow> Undefined)"

definition rowAt :: "IColumn list \<Rightarrow> int \<Rightarrow> nat \<Rightarrow> Row option" where
  \<comment> \<open>\<open>columns[x]?.rows[y]\<close>\<close>
  "rowAt columns x y =
     (case at columns x of None \<Rightarrow> None | Some col \<Rightarrow> at (rows col) (int y))"

definition setRow :: "nat \<Rightarrow> nat \<Rightarrow> Row \<Rightarrow> IColumn list \<Rightarrow> IColumn list" where
  \<comment> \<open>\<open>columns[x].rows[y] = r\<close> for an existing row\<close>
  "setRow x y r columns = columns[x := (columns ! x)\<lparr> rows := (rows (columns ! x))[y := r] \<rparr>]"

subsection \<open>Phase 1: one column per interior sample\<close>

text \<open>
  The loop \<open>for (let id = root.parent; id; id = model.nodes[id].parent)\<close> runs forever when
  the parent ids form a cycle: its result is an \<open>option\<close>, \<open>None\<close> for a run that does not
  end.
\<close>

partial_function (option) ancestorRows ::
    "IProfileModel \<Rightarrow> JsNum \<Rightarrow> int option \<Rightarrow> Row list \<Rightarrow> nat \<Rightarrow> (error + Row list \<times> nat) option"
where
  "ancestorRows model selfTime ident rws graphIdCounter =
     (case ident of
        None \<Rightarrow> Some (Inr (rws, graphIdCounter))
      | Some k \<Rightarrow>
          if k = 0 then Some (Inr (rws, graphIdCounter))
          else (case elems (m_nodes model) k of
                  None \<Rightarrow> Some (Inl TypeError)
                | Some node \<Rightarrow>
                    ancestorRows model selfTime (cn_parent node)
                      (Cell \<lparr> fc_location = atOpt (m_locations model) (cn_locationId node),
                              graphId = graphIdCounter,
                              fc_selfTime = Num 0, fc_aggregateTime = selfTime \<rparr> # rws)
                      (Suc graphIdCounter)))"

declare ancestorRows.simps [code]

record ColumnsState =
  cs_columns :: "IColumn list"
  cs_graphIdCounter :: nat
  cs_timeOffset :: JsNum

definition jsAt :: "int list \<Rightarrow> int \<Rightarrow> JsNum" where
  \<comment> \<open>\<open>xs[i]\<close> of an array of numbers\<close>
  "jsAt xs i = (case at xs i of None \<Rightarrow> Undefined | Some v \<Rightarrow> Num v)"

definition buildColumn ::
    "IProfileModel \<Rightarrow> nat \<Rightarrow> ColumnsState \<Rightarrow> (error + ColumnsState) option" where
  \<comment> \<open>the body of the first loop, for the sample at index \<open>i\<close>\<close>
  "buildColumn model i st =
     (case at (m_samples model) (int i) of
        None \<Rightarrow> Some (Inl TypeError)
      | Some s \<Rightarrow>
          (case elems (m_nodes model) s of
             None \<Rightarrow> Some (Inl TypeError)
           | Some root \<Rightarrow>
               (let selfTime = jsAt (m_timeDeltas model) (int i - 1)
                in case ancestorRows model selfTime (cn_parent root)
                          [Cell \<lparr> fc_location = atOpt (m_locations model) (cn_locationId root),
                                  graphId = cs_graphIdCounter st,
                                  fc_selfTime = selfTime, fc_aggregateTime = Num 0 \<rparr>]
                          (Suc (cs_graphIdCounter st)) of
                     None \<Rightarrow> None
                   | Some (Inl e) \<Rightarrow> Some (Inl e)
                   | Some (Inr (rws, counter)) \<Rightarrow>
                       Some (Inr \<lparr> cs_columns = cs_columns st @
                                     [\<lparr> x1 = (cs_timeOffset st, duration model),
                                        x2 = (jsAdd selfTime (cs_timeOffset st), duration model),
                                        rows = rws \<rparr>],
                                   cs_graphIdCounter = counter,
                                   cs_timeOffset = jsAdd (cs_timeOffset st) selfTime \<rparr>))))"

fun buildInitialColumns ::
    "IProfileModel \<Rightarrow> nat list \<Rightarrow> ColumnsState \<Rightarrow> (error + ColumnsState) option" where
  "buildInitialColumns model [] st = Some (Inr st)"
| "buildInitialColumns model (i # rest) st =
     (case buildColumn model i st of
        None \<Rightarrow> None
      | Some (Inl e) \<Rightarrow> Some (Inl e)
      | Some (Inr st') \<Rightarrow> buildInitialColumns model rest st')"

definition initialColumns :: "IProfileModel \<Rightarrow> (error + IColumn list) option" where
  \<comment> \<open>\<open>for (let i = 1; i < model.samples.length - 1; i++)\<close>\<close>
  "initialColumns model =
     (case buildInitialColumns model [1..<length (m_samples model) - 1]
             \<lparr> cs_columns = [], cs_graphIdCounter = 0, cs_timeOffset = Num 0 \<rparr> of
        None \<Rightarrow> None
      | Some (Inl e) \<Rightarrow> Some (Inl e)
      | Some (Inr st) \<Rightarrow> Some (Inr (cs_columns st)))"

subsection \<open>Phase 2: the horizontal merge\<close>

definition accumulate :: "int \<Rightarrow> nat \<Rightarrow> Row \<Rightarrow> IColumn list \<Rightarrow> error + IColumn list" where
  \<comment> \<open>\<open>prev.selfTime += current.selfTime; prev.aggregateTime += current.aggregateTime\<close>
      for the \<open>prev\<close> found at row \<open>y\<close> of column \<open>p\<close>; a write to a property of
      \<open>undefined\<close> or of a number throws\<close>
  "accumulate p y current cols =
     (case rowAt cols p y of
        Some (Cell prev) \<Rightarrow>
          Inr (setRow (nat p) y
                 (Cell (prev\<lparr> fc_selfTime := jsAdd (fc_selfTime prev) (rowSelfTime current),
                               fc_aggregateTime :=
                                 jsAdd (fc_aggregateTime prev) (rowAggregateTime current) \<rparr>))
                 cols)
      | _ \<Rightarrow> Inl TypeError)"

definition mergeCell :: "nat \<Rightarrow> nat \<Rightarrow> IColumn list \<Rightarrow> error + IColumn list option" where
  \<comment> \<open>the body of the inner loop; \<open>Inr None\<close> is \<open>break\<close>\<close>
  "mergeCell x y cols =
     (case rowAt cols (int x) y of
        None \<Rightarrow> Inl TypeError
      | Some current \<Rightarrow>
          (case rowAt cols (int x - 1) y of
             Some (Ref p) \<Rightarrow>
               (case rowAt cols p y of
                  None \<Rightarrow> Inl TypeError
                | Some target \<Rightarrow>
                    if rowId current \<noteq> rowId target then Inr None
                    else map_sum id Some (accumulate p y current (setRow x y (Ref p) cols)))
           | Some (Cell prev) \<Rightarrow>
               if cellId prev = rowId current
               then map_sum id Some
                      (accumulate (int x - 1) y current (setRow x y (Ref (int x - 1)) cols))
               else Inr None
           | None \<Rightarrow>
               if None = rowId current
               then map_sum id Some
                      (accumulate (int x - 1) y current (setRow x y (Ref (int x - 1)) cols))
               else Inr None))"

lemma length_setRow [simp]: "length (setRow x y r cols) = length cols"
  by (simp add: setRow_def)

lemma rows_setRow:
  "k < length cols \<Longrightarrow>
   rows (setRow x y r cols ! k) = (if k = x then (rows (cols ! x))[y := r] else rows (cols ! k))"
  by (simp add: setRow_def nth_list_update)

lemma length_rows_setRow [simp]:
  "k < length cols \<Longrightarrow> length (rows (setRow x y r cols ! k)) = length (rows (cols ! k))"
  by (simp add: rows_setRow)

lemma accumulate_shape:
  "accumulate p y current cols = Inr cols' \<Longrightarrow>
   length cols' = length cols
   \<and> (\<forall>k<length cols. length (rows (cols' ! k)) = length (rows (cols ! k)))"
  by (auto simp: accumulate_def split: option.splits Row.splits)

lemma mergeCell_shape:
  "mergeCell x y cols = Inr (Some cols') \<Longrightarrow>
   length cols' = length cols
   \<and> (\<forall>k<length cols. length (rows (cols' ! k)) = length (rows (cols ! k)))"
  unfolding mergeCell_def
  by (auto split: option.splits Row.splits if_splits sum.splits
           dest!: accumulate_shape simp: map_sum_def)

function mergeRows :: "nat \<Rightarrow> nat \<Rightarrow> IColumn list \<Rightarrow> error + IColumn list" where
  \<comment> \<open>\<open>for (let y = 0; y < col.rows.length; y++)\<close> for \<open>col = columns[x]\<close>\<close>
  "mergeRows x y cols =
     (case at cols (int x) of
        None \<Rightarrow> Inl TypeError
      | Some col \<Rightarrow>
          if y < length (rows col) then
            (case mergeCell x y cols of
               Inl e \<Rightarrow> Inl e
             | Inr None \<Rightarrow> Inr cols
             | Inr (Some cols') \<Rightarrow> mergeRows x (Suc y) cols')
          else Inr cols)"
  by pat_completeness auto
termination
  by (relation "measure (\<lambda>(x, y, cols). length (rows (cols ! x)) - y)")
     (auto simp: at_Some dest!: mergeCell_shape)

declare mergeRows.simps [simp del]

lemma mergeRows_shape:
  "mergeRows x y cols = Inr cols' \<Longrightarrow>
   length cols' = length cols
   \<and> (\<forall>k<length cols. length (rows (cols' ! k)) = length (rows (cols ! k)))"
proof (induction x y cols rule: mergeRows.induct)
  case (1 x y cols)
  from "1.prems" obtain col where col: "at cols (int x) = Some col"
    by (subst (asm) mergeRows.simps) (auto split: option.splits)
  show ?case
  proof (cases "y < length (rows col)")
    case False
    then show ?thesis using "1.prems" col by (subst (asm) mergeRows.simps) simp
  next
    case True
    show ?thesis
    proof (cases "mergeCell x y cols")
      case (Inl e)
      then show ?thesis using "1.prems" col True by (subst (asm) mergeRows.simps) simp
    next
      case (Inr r)
      show ?thesis
      proof (cases r)
        case None
        then show ?thesis using "1.prems" col True Inr by (subst (asm) mergeRows.simps) simp
      next
        case (Some c1)
        then have "mergeRows x (Suc y) c1 = Inr cols'"
          using "1.prems" col True Inr by (subst (asm) mergeRows.simps) simp
        from "1.IH"[OF col True Inr Some this] mergeCell_shape[OF Inr[unfolded Some]]
        show ?thesis by simp
      qed
    qed
  qed
qed

function mergeColumns :: "nat \<Rightarrow> IColumn list \<Rightarrow> error + IColumn list" where
  \<comment> \<open>\<open>for (let x = 1; x < columns.length; x++)\<close>, entered with \<open>x = 1\<close>\<close>
  "mergeColumns x cols =
     (if x < length cols then
        (case mergeRows x 0 cols of
           Inl e \<Rightarrow> Inl e
         | Inr cols' \<Rightarrow> mergeColumns (Suc x) cols')
      else Inr cols)"
  by pat_completeness auto
termination
  by (relation "measure (\<lambda>(x, cols). length cols - x)") (auto dest!: mergeRows_shape)

declare mergeColumns.simps [simp del]

definition buildColumns :: "IProfileModel \<Rightarrow> (error + IColumn list) option" where
  "buildColumns model =
     (case initialColumns model of
        None \<Rightarrow> None
      | Some (Inl e) \<Rightarrow> Some (Inl e)
      | Some (Inr cols) \<Rightarrow> Some (mergeColumns 1 cols))"


subsection \<open>LocationAccessor\<close>

text \<open>
  An accessor copies the fields of the cell it is created on and keeps the column list.
\<close>

record LocationAccessor =
  la_model :: "IColumn list"
  la_x :: nat
  la_y :: nat
  la_id :: "int option"
  la_selfTime :: JsNum
  la_aggregateTime :: JsNum
  la_ticks :: "int option"
  la_category :: "Category option"
  la_callFrame :: "CallFrame option"
  la_src :: "ILocationSrc option"

definition newLocationAccessor :: "IColumn list \<Rightarrow> nat \<Rightarrow> nat \<Rightarrow> error + LocationAccessor" where
  \<comment> \<open>the constructor\<close>
  "newLocationAccessor model x y =
     (case at model (int x) of
        None \<Rightarrow> Inl TypeError
      | Some col \<Rightarrow>
          (case at (rows col) (int y) of
             None \<Rightarrow> Inl TypeError
           | Some (Ref _) \<Rightarrow> Inl MergedLocationError
           | Some (Cell cell) \<Rightarrow>
               Inr \<lparr> la_model = model, la_x = x, la_y = y,
                     la_id = cellId cell,
                     la_selfTime = fc_selfTime cell,
                     la_aggregateTime = fc_aggregateTime cell,
                     la_ticks = map_option loc_ticks (fc_location cell),
                     la_category = map_option category (fc_location cell),
                     la_callFrame = map_option callFrame (fc_location cell),
                     la_src = Option.bind (fc_location cell) src \<rparr>))"

definition truthyRow :: "Row option \<Rightarrow> bool" where
  \<comment> \<open>an object is truthy, a number unless it is 0, \<open>undefined\<close> is not\<close>
  "truthyRow r = (case r of None \<Rightarrow> False | Some (Cell _) \<Rightarrow> True | Some (Ref n) \<Rightarrow> n \<noteq> 0)"

function childrenFrom ::
    "LocationAccessor \<Rightarrow> nat \<Rightarrow> LocationAccessor list \<Rightarrow> error + LocationAccessor list" where
  \<comment> \<open>the \<open>do ... while\<close> loop of the \<open>children\<close> getter, at column \<open>dx\<close>\<close>
  "childrenFrom this dx children =
     (case at (la_model this) (int dx) of
        None \<Rightarrow> Inl TypeError
      | Some col \<Rightarrow>
          (case (if truthyRow (at (rows col) (int (la_y this + 1)))
                 then (case newLocationAccessor (la_model this) dx (la_y this + 1) of
                         Inl e \<Rightarrow> Inl e
                       | Inr child \<Rightarrow> Inr (children @ [child]))
                 else Inr children) of
             Inl e \<Rightarrow> Inl e
           | Inr children' \<Rightarrow>
               (case at (la_model this) (int (dx + 1)) of
                  None \<Rightarrow> Inl TypeError
                | Some next \<Rightarrow>
                    if at (rows next) (int (la_y this)) = Some (Ref (int (la_x this)))
                    then childrenFrom this (Suc dx) children'
                    else Inr children')))"
  by pat_completeness auto
termination
  by (relation "measure (\<lambda>(this, dx, children). length (la_model this) - dx)")
     (auto simp: at_Some)

declare childrenFrom.simps [simp del]

definition children :: "LocationAccessor \<Rightarrow> error + LocationAccessor list" where
  "children this = childrenFrom this (la_x this) []"

fun rootAccessorsFrom ::
    "IColumn list \<Rightarrow> nat list \<Rightarrow> LocationAccessor list \<Rightarrow> error + LocationAccessor list" where
  "rootAccessorsFrom cols [] accessors = Inr accessors"
| "rootAccessorsFrom cols (x # rest) accessors =
     (case at cols (int x) of
        None \<Rightarrow> Inl TypeError
      | Some col \<Rightarrow>
          (case at (rows col) 0 of
             Some (Cell _) \<Rightarrow>
               (case newLocationAccessor cols x 0 of
                  Inl e \<Rightarrow> Inl e
                | Inr a \<Rightarrow> rootAccessorsFrom cols rest (accessors @ [a]))
           | _ \<Rightarrow> rootAccessorsFrom cols rest accessors))"

definition rootAccessors :: "IColumn list \<Rightarrow> error + LocationAccessor list" where
  \<comment> \<open>\<open>for (let x = 0; x < columns.length; x++)\<close>\<close>
  "rootAccessors cols = rootAccessorsFrom cols [0..<length cols] []"

function markSpan :: "IColumn list \<Rightarrow> LocationAccessor \<Rightarrow> nat \<Rightarrow> nat set \<Rightarrow> nat set" where
  \<comment> \<open>the inner loop of \<open>getFilteredColumns\<close>: \<open>validX[x] = true\<close> along the span\<close>
  "markSpan cols accessor x validX =
     (if x < length cols
         \<and> at (rows (cols ! x)) (int (la_y accessor)) = Some (Ref (int (la_x accessor)))
      then markSpan cols accessor (Suc x) (insert x validX)
      else validX)"
  by pat_completeness auto
termination
  by (relation "measure (\<lambda>(cols, accessor, x, validX). length cols - x)") auto

declare markSpan.simps [simp del]

fun markAccessors :: "IColumn list \<Rightarrow> LocationAccessor list \<Rightarrow> nat set \<Rightarrow> nat set" where
  "markAccessors cols [] validX = validX"
| "markAccessors cols (accessor # rest) validX =
     markAccessors cols rest
       (markSpan cols accessor (la_x accessor + 1) (insert (la_x accessor) validX))"

definition shiftRow :: "int \<Rightarrow> Row \<Rightarrow> Row" where
  \<comment> \<open>\<open>r => (typeof r === 'number' ? r - offsetX : r)\<close>\<close>
  "shiftRow offsetX r = (case r of Ref n \<Rightarrow> Ref (n - offsetX) | Cell c \<Rightarrow> Cell c)"

fun adjustColumns :: "IColumn list \<Rightarrow> nat set \<Rightarrow> nat \<Rightarrow> nat \<Rightarrow> IColumn list \<Rightarrow> IColumn list" where
  \<comment> \<open>the second loop of \<open>getFilteredColumns\<close>, over the columns from index \<open>x\<close> on\<close>
  "adjustColumns [] validX x offsetX adjusted = adjusted"
| "adjustColumns (column # rest) validX x offsetX adjusted =
     (if x \<notin> validX then adjustColumns rest validX (Suc x) (Suc offsetX) adjusted
      else adjustColumns rest validX (Suc x) offsetX
             (adjusted @
                [if offsetX \<noteq> 0
                 then \<lparr> x1 = x1 column, x2 = x2 column,
                        rows = map (shiftRow (int offsetX)) (rows column) \<rparr>
                 else column]))"

definition getFilteredColumns :: "IColumn list \<Rightarrow> LocationAccessor list \<Rightarrow> IColumn list" where
  "getFilteredColumns cols accessors =
     adjustColumns cols (markAccessors cols accessors {}) 0 0 []"

definition chainColumns :: "IColumn list" where
  "chainColumns = projr (the (buildColumns chainModel))"


end
